theory Spec2Isabelle
  imports Main "HOL-Library.Multiset"
begin

section \<open>The vector memtable representation (util/vectorrep.cc)\<close>

text \<open>
  \<^verbatim>\<open>VectorRep\<close> keeps the entries of a memtable in an unsorted \<^verbatim>\<open>std::vector\<close> of
  \<^verbatim>\<open>const char*\<close> and sorts it lazily, the first time an iterator needs the order.
  An entry is a pointer: the type variable \<open>'e\<close> stands for \<^verbatim>\<open>const char*\<close>, and
  equality on \<open>'e\<close> is pointer identity. What the pointer refers to is seen only by the
  comparator.

  The model is sequential (the reader/writer lock is not represented) and is the checked
  build: every \<^verbatim>\<open>assert\<close> of the source is evaluated and its failure is the result
  \<open>Inl AssertionFailed\<close>.
\<close>

subsection \<open>The comparator\<close>

text \<open>
  \<^verbatim>\<open>KeyComparator::operator()(a, b)\<close> returns a negative, zero or positive \<^verbatim>\<open>int\<close>.
  Both classes hold it as a \<^verbatim>\<open>const KeyComparator&\<close> bound at construction and never
  changed (\<^verbatim>\<open>compare_\<close>); the model passes it as the first argument of every function
  that reads it.
\<close>

type_synonym 'e KeyComparator = "'e \<Rightarrow> 'e \<Rightarrow> int"

text \<open>
  Modelled from the spec: \<^verbatim>\<open>stl_wrappers::Compare\<close> (util/stl_wrappers.h) is missing from
  the sources. The spec sorts "using Comparator as the ordering predicate"; the predicate
  is the one the lambda of \<^verbatim>\<open>Seek\<close> writes out, \<^verbatim>\<open>compare_(a, b) < 0\<close>.
\<close>

definition Compare :: "'e KeyComparator \<Rightarrow> 'e \<Rightarrow> 'e \<Rightarrow> bool" where
  "Compare c a b \<longleftrightarrow> c a b < 0"

text \<open>
  The requirement of the standard library on an ordering predicate: a strict weak order
  (irreflexive, transitive, and "not before" is transitive as well).
\<close>

definition strict_weak_order :: "('e \<Rightarrow> 'e \<Rightarrow> bool) \<Rightarrow> bool" where
  "strict_weak_order lt \<longleftrightarrow>
     (\<forall>a. \<not> lt a a) \<and>
     (\<forall>a b d. lt a b \<and> lt b d \<longrightarrow> lt a d) \<and>
     (\<forall>a b d. \<not> lt a b \<and> \<not> lt b d \<longrightarrow> \<not> lt a d)"

text \<open>A sequence is ordered when no later element is before an earlier one.\<close>

definition ordered :: "('e \<Rightarrow> 'e \<Rightarrow> bool) \<Rightarrow> 'e list \<Rightarrow> bool" where
  "ordered lt xs \<longleftrightarrow> sorted_wrt (\<lambda>a b. \<not> lt b a) xs"

text \<open>
  Entries pairwise distinct under the comparator: no reference occurs twice, and of two
  different references one is before the other.
\<close>

definition distinct_under :: "('e \<Rightarrow> 'e \<Rightarrow> bool) \<Rightarrow> 'e list \<Rightarrow> bool" where
  "distinct_under lt xs \<longleftrightarrow>
     distinct xs \<and> (\<forall>a\<in>set xs. \<forall>b\<in>set xs. a \<noteq> b \<longrightarrow> lt a b \<or> lt b a)"

subsection \<open>The algorithms of the C++ standard library that the source calls\<close>

text \<open>
  \<^verbatim>\<open>std::sort(first, last, lt)\<close> permutes the range into an order in which no element
  is before an earlier one; the order in which it leaves equivalent elements is unspecified
  and differs between implementations. The model is an insertion sort, which is one
  admissible outcome. On elements that are pairwise distinct under the comparator the
  result is the only ordered permutation (\<open>std_sort_unique\<close> below). Nothing stated in
  the last section depends on the order in which equivalent entries come out: there the
  result of a sort is an ordered permutation of the bucket, and no more is said of it.
\<close>

fun sort_insert :: "('e \<Rightarrow> 'e \<Rightarrow> bool) \<Rightarrow> 'e \<Rightarrow> 'e list \<Rightarrow> 'e list" where
  "sort_insert lt x [] = [x]"
| "sort_insert lt x (y # ys) = (if lt y x then y # sort_insert lt x ys else x # y # ys)"

fun std_sort :: "('e \<Rightarrow> 'e \<Rightarrow> bool) \<Rightarrow> 'e list \<Rightarrow> 'e list" where
  "std_sort lt [] = []"
| "std_sort lt (x # xs) = sort_insert lt x (std_sort lt xs)"

text \<open>
  \<^verbatim>\<open>std::lower_bound\<close>, \<^verbatim>\<open>std::upper_bound\<close> and \<^verbatim>\<open>std::equal_range\<close> as the binary
  searches of libstdc++. A range \<^verbatim>\<open>[first, last)\<close> is the list of its elements and a
  returned iterator is its distance from \<^verbatim>\<open>first\<close>.
\<close>

function lower_bound :: "('e \<Rightarrow> 'e \<Rightarrow> bool) \<Rightarrow> 'e list \<Rightarrow> 'e \<Rightarrow> nat" where
  "lower_bound lt xs val =
     (if 0 < length xs then
        (let half = length xs div 2; middle = xs ! half in
           if lt middle val
           then half + 1 + lower_bound lt (drop (half + 1) xs) val
           else lower_bound lt (take half xs) val)
      else 0)"
  by pat_completeness auto
termination
  by (relation "measure (\<lambda>(lt, xs, val). length xs)") auto

function upper_bound :: "('e \<Rightarrow> 'e \<Rightarrow> bool) \<Rightarrow> 'e list \<Rightarrow> 'e \<Rightarrow> nat" where
  "upper_bound lt xs val =
     (if 0 < length xs then
        (let half = length xs div 2; middle = xs ! half in
           if lt val middle
           then upper_bound lt (take half xs) val
           else half + 1 + upper_bound lt (drop (half + 1) xs) val)
      else 0)"
  by pat_completeness auto
termination
  by (relation "measure (\<lambda>(lt, xs, val). length xs)") auto

function equal_range :: "('e \<Rightarrow> 'e \<Rightarrow> bool) \<Rightarrow> 'e list \<Rightarrow> 'e \<Rightarrow> nat \<times> nat" where
  "equal_range lt xs val =
     (if 0 < length xs then
        (let half = length xs div 2; middle = xs ! half in
           if lt middle val
           then (let (l, r) = equal_range lt (drop (half + 1) xs) val
                 in (half + 1 + l, half + 1 + r))
           else if lt val middle
           then equal_range lt (take half xs) val
           else (lower_bound lt (take half xs) val,
                 half + 1 + upper_bound lt (drop (half + 1) xs) val))
      else (0, 0))"
  by pat_completeness auto
termination
  by (relation "measure (\<lambda>(lt, xs, val). length xs)") auto

declare lower_bound.simps [simp del] upper_bound.simps [simp del] equal_range.simps [simp del]

subsection \<open>Objects\<close>

datatype error = AssertionFailed | UndefinedBehaviour

text \<open>A result that may be an error, and sequencing that stops at the first error.\<close>

definition and_then :: "error + 'a \<Rightarrow> ('a \<Rightarrow> error + 'b) \<Rightarrow> error + 'b" where
  "and_then r f = (case r of Inl e \<Rightarrow> Inl e | Inr x \<Rightarrow> f x)"

lemma and_then_Inr [simp]: "and_then (Inr x) f = f x"
  by (simp add: and_then_def)

lemma and_then_Inl [simp]: "and_then (Inl e) f = Inl e"
  by (simp add: and_then_def)

lemma and_then_eq_Inr: "and_then r f = Inr y \<longleftrightarrow> (\<exists>x. r = Inr x \<and> f x = Inr y)"
  by (cases r) auto

lemma and_then_cong [fundef_cong]:
  "r = r' \<Longrightarrow> (\<And>x. r' = Inr x \<Longrightarrow> f x = f' x) \<Longrightarrow> and_then r f = and_then r' f'"
  by (cases r') (auto simp: and_then_def)

text \<open>
  A \<^verbatim>\<open>Bucket\<close> (\<^verbatim>\<open>std::vector<const char*>\<close>) lives on the heap and is reached through a
  \<^verbatim>\<open>std::shared_ptr\<close>, here an address. A shared pointer never dangles, so the heap is a
  total function; \<open>brk\<close> is the first address that has not been allocated. A vector
  owns an array only once it needs one: \<open>storage\<close> tells whether the vector at an address
  has its array, that is, whether its \<^verbatim>\<open>begin()\<close> is other than the null pointer.
\<close>

type_synonym addr = nat

text \<open>
  The fields \<^verbatim>\<open>bucket_\<close>, \<^verbatim>\<open>immutable_\<close> and \<^verbatim>\<open>sorted_\<close> of \<^verbatim>\<open>VectorRep\<close> (a name cannot
  end in an underscore here, and \<^verbatim>\<open>bucket_\<close> and \<^verbatim>\<open>sorted_\<close> are fields of both
  classes: those of \<^verbatim>\<open>VectorRep\<close> start with \<open>v_\<close>, those of \<^verbatim>\<open>Iterator\<close> with \<open>i_\<close>).
\<close>

record VectorRep =
  v_bucket :: addr
  v_immutable :: bool
  v_sorted :: bool

text \<open>The heap of buckets and the one \<^verbatim>\<open>VectorRep\<close> under study.\<close>

record 'e world =
  mem :: "addr \<Rightarrow> 'e list"
  storage :: "addr \<Rightarrow> bool"
  brk :: addr
  vrep :: VectorRep

text \<open>
  \<^verbatim>\<open>Iterator::vrep_\<close> is either \<^verbatim>\<open>nullptr\<close> or points to the \<^verbatim>\<open>VectorRep\<close> that made the
  iterator.
\<close>

datatype vrep_ptr = nullptr | this_vrep

text \<open>
  \<^verbatim>\<open>Iterator::cit_\<close> is a \<^verbatim>\<open>const_iterator\<close> of the bucket, constructed from \<^verbatim>\<open>nullptr\<close>:
  \<open>None\<close> is that null iterator, \<open>Some i\<close> is \<^verbatim>\<open>bucket_->begin() + i\<close>, and
  \<^verbatim>\<open>bucket_->end()\<close> is \<open>Some (length xs)\<close>. The iterators of a vector are pointers into
  its array, and the comparisons of the source compare pointers: the null iterator differs
  from every position of a vector that has its array, and equals both \<^verbatim>\<open>begin()\<close> and
  \<^verbatim>\<open>end()\<close> of an (empty) vector that has none. The only iterator that keeps the null
  cursor after its first \<open>DoSort\<close> is one that shares a bucket which another iterator has
  sorted already.
\<close>

record Iterator =
  i_vrep :: vrep_ptr
  i_bucket :: addr
  i_cit :: "nat option"
  i_sorted :: bool

abbreviation the_bucket :: "'e world \<Rightarrow> 'e list" where
  "the_bucket w \<equiv> mem w (v_bucket (vrep w))"

abbreviation bucket_of :: "Iterator \<Rightarrow> 'e world \<Rightarrow> 'e list" where
  "bucket_of it w \<equiv> mem w (i_bucket it)"

text \<open>
  The comparisons \<^verbatim>\<open>cit_ == bucket_->begin()\<close> and \<^verbatim>\<open>cit_ == bucket_->end()\<close>.
\<close>

definition at_begin :: "Iterator \<Rightarrow> 'e world \<Rightarrow> bool" where
  "at_begin it w \<longleftrightarrow>
     (case i_cit it of None \<Rightarrow> \<not> storage w (i_bucket it) | Some i \<Rightarrow> i = 0)"

definition at_end :: "Iterator \<Rightarrow> 'e world \<Rightarrow> bool" where
  "at_end it w \<longleftrightarrow>
     (case i_cit it of
        None \<Rightarrow> \<not> storage w (i_bucket it)
      | Some i \<Rightarrow> i = length (bucket_of it w))"

text \<open>
  \<^verbatim>\<open>new Bucket(xs)\<close>: a fresh address holding \<open>xs\<close>. Both the default constructor
  (\<open>xs\<close> empty) and the copy constructor allocate an array only for a non-empty vector.
\<close>

definition new_Bucket :: "'e list \<Rightarrow> 'e world \<Rightarrow> addr \<times> 'e world" where
  "new_Bucket xs w =
     (brk w,
      w\<lparr>mem := (mem w)(brk w := xs), storage := (storage w)(brk w := xs \<noteq> []),
        brk := Suc (brk w)\<rparr>)"

text \<open>\<^verbatim>\<open>reserve(n)\<close> on the vector at \<open>b\<close>: it allocates the array when \<open>n\<close> is positive.\<close>

definition reserve :: "nat \<Rightarrow> addr \<Rightarrow> 'e world \<Rightarrow> 'e world" where
  "reserve n b w = w\<lparr>storage := (storage w)(b := storage w b \<or> 0 < n)\<rparr>"

text \<open>\<^verbatim>\<open>push_back(x)\<close> on the vector at \<open>b\<close>; the vector has its array afterwards.\<close>

definition push_back :: "'e \<Rightarrow> addr \<Rightarrow> 'e world \<Rightarrow> 'e world" where
  "push_back x b w = w\<lparr>mem := (mem w)(b := mem w b @ [x]), storage := (storage w)(b := True)\<rparr>"

subsection \<open>VectorRep\<close>

text \<open>
  The constructor: a new empty bucket, \<^verbatim>\<open>immutable_\<close> and \<^verbatim>\<open>sorted_\<close> false, then
  \<^verbatim>\<open>reserve(count)\<close>. The exceptions of the standard library (\<^verbatim>\<open>std::bad_alloc\<close>, and
  \<^verbatim>\<open>std::length_error\<close> for a \<^verbatim>\<open>count\<close> above \<^verbatim>\<open>max_size()\<close>) leave no object behind
  and are not modelled.
\<close>

definition VectorRep_new :: "nat \<Rightarrow> 'e world" where
  "VectorRep_new cnt =
     (let (b, w) = new_Bucket []
            \<lparr>mem = (\<lambda>a. []), storage = (\<lambda>a. False), brk = 0,
             vrep = \<lparr>v_bucket = 0, v_immutable = False, v_sorted = False\<rparr>\<rparr>
      in reserve cnt b (w\<lparr>vrep := \<lparr>v_bucket = b, v_immutable = False, v_sorted = False\<rparr>\<rparr>))"

text \<open>\<^verbatim>\<open>std::find\<close> over the bucket compares pointers.\<close>

definition Contains :: "'e \<Rightarrow> 'e world \<Rightarrow> bool" where
  "Contains key w \<longleftrightarrow> key \<in> set (the_bucket w)"

definition Insert :: "'e \<Rightarrow> 'e world \<Rightarrow> error + 'e world" where
  "Insert key w =
     (if Contains key w then Inl AssertionFailed
      else if v_immutable (vrep w) then Inl AssertionFailed
      else Inr (push_back key (v_bucket (vrep w)) w))"

definition MarkReadOnly :: "'e world \<Rightarrow> 'e world" where
  "MarkReadOnly w = w\<lparr>vrep := (vrep w)\<lparr>v_immutable := True\<rparr>\<rparr>"

text \<open>
  The sizes of an LP64 platform: \<^verbatim>\<open>sizeof(std::shared_ptr<Bucket>)\<close>,
  \<^verbatim>\<open>sizeof(std::vector<const char*>)\<close>, \<^verbatim>\<open>sizeof(const char*)\<close>; and
  \<^verbatim>\<open>std::vector<const char*>::max_size()\<close>, which is \<^verbatim>\<open>PTRDIFF_MAX / sizeof(const char*)\<close>.
\<close>

definition sizeof_shared_ptr :: nat where "sizeof_shared_ptr = 16"
definition sizeof_Bucket :: nat where "sizeof_Bucket = 24"
definition sizeof_value_type :: nat where "sizeof_value_type = 8"
definition vector_max_size :: nat where "vector_max_size = (2 ^ 63 - 1) div 8"

text \<open>The sum is computed in \<^verbatim>\<open>size_t\<close>, modulo \<open>2 ^ 64\<close>.\<close>

definition ApproximateMemoryUsage :: "'e world \<Rightarrow> nat" where
  "ApproximateMemoryUsage w =
     (sizeof_shared_ptr + sizeof_Bucket + length (the_bucket w) * sizeof_value_type) mod 2 ^ 64"

definition Iterator_new :: "vrep_ptr \<Rightarrow> addr \<Rightarrow> Iterator" where
  "Iterator_new vr b = \<lparr>i_vrep = vr, i_bucket = b, i_cit = None, i_sorted = False\<rparr>"

definition GetIterator :: "'e world \<Rightarrow> Iterator \<times> 'e world" where
  "GetIterator w =
     (if v_immutable (vrep w) then (Iterator_new this_vrep (v_bucket (vrep w)), w)
      else (let (tmp, w') = new_Bucket (the_bucket w) w in (Iterator_new nullptr tmp, w')))"

subsection \<open>Iterator\<close>

text \<open>The two statements \<^verbatim>\<open>std::sort(bucket_->begin(), bucket_->end(), Compare(compare_)); cit_ = bucket_->begin();\<close>\<close>

definition sort_and_rewind :: "'e KeyComparator \<Rightarrow> Iterator \<Rightarrow> 'e world \<Rightarrow> Iterator \<times> 'e world" where
  "sort_and_rewind c it w =
     (it\<lparr>i_cit := Some 0\<rparr>,
      w\<lparr>mem := (mem w)(i_bucket it := std_sort (Compare c) (bucket_of it w))\<rparr>)"

definition DoSort :: "'e KeyComparator \<Rightarrow> Iterator \<Rightarrow> 'e world \<Rightarrow> error + (Iterator \<times> 'e world)" where
  "DoSort c it w =
     (let (it1, w1) =
            (if \<not> i_sorted it \<and> i_vrep it \<noteq> nullptr then
               (let (it', w') =
                      (if \<not> v_sorted (vrep w) then
                         (let (it'', w'') = sort_and_rewind c it w
                          in (it'', w''\<lparr>vrep := (vrep w'')\<lparr>v_sorted := True\<rparr>\<rparr>))
                       else (it, w))
                in (it'\<lparr>i_sorted := True\<rparr>, w'))
             else (it, w));
          (it2, w2) =
            (if \<not> i_sorted it1 then
               (let (it', w') = sort_and_rewind c it1 w1 in (it'\<lparr>i_sorted := True\<rparr>, w'))
             else (it1, w1))
      in if \<not> i_sorted it2 then Inl AssertionFailed
         else if \<not> (i_vrep it2 = nullptr \<or> v_sorted (vrep w2)) then Inl AssertionFailed
         else Inr (it2, w2))"

definition Valid :: "'e KeyComparator \<Rightarrow> Iterator \<Rightarrow> 'e world \<Rightarrow> error + (bool \<times> Iterator \<times> 'e world)" where
  "Valid c it w =
     and_then (DoSort c it w)
       (\<lambda>(it', w'). Inr (\<not> at_end it' w', it', w'))"

text \<open>
  \<^verbatim>\<open>*cit_\<close> reads the bucket at the cursor; dereferencing the null iterator or a position
  outside the bucket is undefined behaviour.
\<close>

definition key :: "'e KeyComparator \<Rightarrow> Iterator \<Rightarrow> 'e world \<Rightarrow> error + ('e \<times> Iterator \<times> 'e world)" where
  "key c it w =
     and_then (Valid c it w)
       (\<lambda>(v, it', w').
          if \<not> v then Inl AssertionFailed
          else (case i_cit it' of
                  None \<Rightarrow> Inl UndefinedBehaviour
                | Some i \<Rightarrow>
                    if i < length (bucket_of it' w') then Inr (bucket_of it' w' ! i, it', w')
                    else Inl UndefinedBehaviour))"

text \<open>
  \<^verbatim>\<open>++cit_\<close> and \<^verbatim>\<open>--cit_\<close> are defined between \<^verbatim>\<open>begin()\<close> and \<^verbatim>\<open>end()\<close> only.
\<close>

definition Next :: "'e KeyComparator \<Rightarrow> Iterator \<Rightarrow> 'e world \<Rightarrow> error + (Iterator \<times> 'e world)" where
  "Next c it w =
     and_then (Valid c it w)
       (\<lambda>(v, it', w').
          if \<not> v then Inl AssertionFailed
          else if at_end it' w' then Inr (it', w')
          else (case i_cit it' of
                  None \<Rightarrow> Inl UndefinedBehaviour
                | Some i \<Rightarrow>
                    if i < length (bucket_of it' w') then Inr (it'\<lparr>i_cit := Some (i + 1)\<rparr>, w')
                    else Inl UndefinedBehaviour))"

definition Prev :: "'e KeyComparator \<Rightarrow> Iterator \<Rightarrow> 'e world \<Rightarrow> error + (Iterator \<times> 'e world)" where
  "Prev c it w =
     and_then (Valid c it w)
       (\<lambda>(v, it', w').
          if \<not> v then Inl AssertionFailed
          else if at_begin it' w'
          then Inr (it'\<lparr>i_cit := Some (length (bucket_of it' w'))\<rparr>, w')
          else (case i_cit it' of
                  None \<Rightarrow> Inl UndefinedBehaviour
                | Some i \<Rightarrow>
                    if 0 < i \<and> i \<le> length (bucket_of it' w')
                    then Inr (it'\<lparr>i_cit := Some (i - 1)\<rparr>, w')
                    else Inl UndefinedBehaviour))"

definition Seek :: "'e KeyComparator \<Rightarrow> 'e \<Rightarrow> Iterator \<Rightarrow> 'e world \<Rightarrow> error + (Iterator \<times> 'e world)" where
  "Seek c target it w =
     and_then (DoSort c it w)
       (\<lambda>(it', w').
          Inr (it'\<lparr>i_cit := Some (fst (equal_range (\<lambda>a b. c a b < 0) (bucket_of it' w') target))\<rparr>,
               w'))"

definition SeekToFirst :: "'e KeyComparator \<Rightarrow> Iterator \<Rightarrow> 'e world \<Rightarrow> error + (Iterator \<times> 'e world)" where
  "SeekToFirst c it w =
     and_then (DoSort c it w) (\<lambda>(it', w'). Inr (it'\<lparr>i_cit := Some 0\<rparr>, w'))"

definition SeekToLast :: "'e KeyComparator \<Rightarrow> Iterator \<Rightarrow> 'e world \<Rightarrow> error + (Iterator \<times> 'e world)" where
  "SeekToLast c it w =
     and_then (DoSort c it w)
       (\<lambda>(it', w').
          (let n = length (bucket_of it' w') in
             if n \<noteq> 0 then Inr (it'\<lparr>i_cit := Some (n - 1)\<rparr>, w')
             else Inr (it'\<lparr>i_cit := Some n\<rparr>, w')))"

subsection \<open>Clients\<close>

text \<open>
  The loops of a caller, written with the operations above: inserting a list of entries one
  after the other, and the scan \<^verbatim>\<open>for (; it->Valid(); it->Next()) out.push_back(it->key());\<close>
  The scan ends because each round moves the cursor one step towards \<^verbatim>\<open>end()\<close>:
  \<open>remaining\<close> is the measure, and the termination proof follows the lemmas about
  \<open>Valid\<close>, \<open>key\<close> and \<open>Next\<close> below.
\<close>

fun Insert_all :: "'e list \<Rightarrow> 'e world \<Rightarrow> error + 'e world" where
  "Insert_all [] w = Inr w"
| "Insert_all (k # ks) w = and_then (Insert k w) (Insert_all ks)"

text \<open>
  A comparator for examples: an entry is an address, and the key stored at address \<open>a\<close>
  is \<open>a mod 10\<close>. The addresses 23 and 63 are different entries with equal keys.
\<close>

definition demo_compare :: "nat KeyComparator" where
  "demo_compare a b = int (a mod 10) - int (b mod 10)"

definition remaining :: "Iterator \<Rightarrow> 'e world \<Rightarrow> nat" where
  "remaining it w =
     (if i_sorted it then 0 else Suc (length (bucket_of it w))) +
     (case i_cit it of None \<Rightarrow> 0 | Some i \<Rightarrow> length (bucket_of it w) - i)"

function collect :: "'e KeyComparator \<Rightarrow> Iterator \<Rightarrow> 'e world \<Rightarrow> error + ('e list \<times> Iterator \<times> 'e world)" where
  "collect c it w =
     and_then (Valid c it w)
       (\<lambda>(v, it1, w1).
          if \<not> v then Inr ([], it1, w1)
          else and_then (key c it1 w1)
                 (\<lambda>(k, it2, w2).
                    and_then (Next c it2 w2)
                      (\<lambda>(it3, w3).
                         and_then (collect c it3 w3)
                           (\<lambda>(ks, it4, w4). Inr (k # ks, it4, w4)))))"
  by pat_completeness auto

text \<open>
  A configuration is the heap with its \<^verbatim>\<open>VectorRep\<close> and the iterators that
  \<^verbatim>\<open>GetIterator\<close> has handed out so far. A call names one operation of the two classes
  (an iterator by its index in \<open>iters\<close>); \<open>run\<close> performs a list of calls and stops at
  the first failure. \<^verbatim>\<open>Contains\<close> and \<^verbatim>\<open>ApproximateMemoryUsage\<close> change nothing and are
  not calls. Using an iterator that was never handed out is undefined behaviour.
\<close>

record 'e config =
  store :: "'e world"
  iters :: "Iterator list"

definition initial :: "nat \<Rightarrow> 'e config" where
  "initial cnt = \<lparr>store = VectorRep_new cnt, iters = []\<rparr>"

datatype 'e call =
    Insert_call 'e
  | MarkReadOnly_call
  | GetIterator_call
  | Valid_call nat
  | key_call nat
  | Next_call nat
  | Prev_call nat
  | Seek_call nat 'e
  | SeekToFirst_call nat
  | SeekToLast_call nat

definition on_iterator ::
  "nat \<Rightarrow> (Iterator \<Rightarrow> 'e world \<Rightarrow> error + (Iterator \<times> 'e world)) \<Rightarrow> 'e config \<Rightarrow> error + 'e config" where
  "on_iterator n f cf =
     (if n < length (iters cf)
      then and_then (f (iters cf ! n) (store cf))
             (\<lambda>(it', w'). Inr \<lparr>store = w', iters = (iters cf)[n := it']\<rparr>)
      else Inl UndefinedBehaviour)"

fun perform :: "'e KeyComparator \<Rightarrow> 'e call \<Rightarrow> 'e config \<Rightarrow> error + 'e config" where
  "perform c (Insert_call k) cf = and_then (Insert k (store cf)) (\<lambda>w'. Inr (cf\<lparr>store := w'\<rparr>))"
| "perform c MarkReadOnly_call cf = Inr (cf\<lparr>store := MarkReadOnly (store cf)\<rparr>)"
| "perform c GetIterator_call cf =
     (let (it, w') = GetIterator (store cf) in Inr \<lparr>store = w', iters = iters cf @ [it]\<rparr>)"
| "perform c (Valid_call n) cf =
     on_iterator n (\<lambda>it w. and_then (Valid c it w) (\<lambda>(v, it', w'). Inr (it', w'))) cf"
| "perform c (key_call n) cf =
     on_iterator n (\<lambda>it w. and_then (key c it w) (\<lambda>(k, it', w'). Inr (it', w'))) cf"
| "perform c (Next_call n) cf = on_iterator n (Next c) cf"
| "perform c (Prev_call n) cf = on_iterator n (Prev c) cf"
| "perform c (Seek_call n target) cf = on_iterator n (Seek c target) cf"
| "perform c (SeekToFirst_call n) cf = on_iterator n (SeekToFirst c) cf"
| "perform c (SeekToLast_call n) cf = on_iterator n (SeekToLast c) cf"

fun run :: "'e KeyComparator \<Rightarrow> 'e call list \<Rightarrow> 'e config \<Rightarrow> error + 'e config" where
  "run c [] cf = Inr cf"
| "run c (x # xs) cf = and_then (perform c x cf) (run c xs)"

text \<open>The entries that a list of calls passes to \<^verbatim>\<open>Insert\<close>, in the order of the calls.\<close>

fun inserted :: "'e call list \<Rightarrow> 'e list" where
  "inserted [] = []"
| "inserted (Insert_call k # calls) = k # inserted calls"
| "inserted (x # calls) = inserted calls"

text \<open>
  The facts that hold of every configuration reached from \<open>initial\<close> (\<open>run_ok\<close> below):
  a set \<^verbatim>\<open>sorted_\<close> flag means a frozen, ordered bucket; an iterator with a
  \<^verbatim>\<open>vrep_\<close> shares the bucket of its frozen \<^verbatim>\<open>VectorRep\<close>; an iterator without one owns
  a bucket of its own.
\<close>

definition world_ok :: "'e KeyComparator \<Rightarrow> 'e world \<Rightarrow> bool" where
  "world_ok c w \<longleftrightarrow>
     v_bucket (vrep w) < brk w \<and>
     (v_sorted (vrep w) \<longrightarrow> v_immutable (vrep w) \<and> ordered (Compare c) (the_bucket w))"

definition iter_ok :: "'e KeyComparator \<Rightarrow> 'e world \<Rightarrow> Iterator \<Rightarrow> bool" where
  "iter_ok c w it \<longleftrightarrow>
     i_bucket it < brk w \<and>
     (case i_vrep it of
        this_vrep \<Rightarrow>
          i_bucket it = v_bucket (vrep w) \<and> v_immutable (vrep w) \<and>
          (i_sorted it \<longrightarrow> v_sorted (vrep w))
      | nullptr \<Rightarrow>
          i_bucket it \<noteq> v_bucket (vrep w) \<and>
          (i_sorted it \<longrightarrow> ordered (Compare c) (bucket_of it w)))"

definition config_ok :: "'e KeyComparator \<Rightarrow> 'e config \<Rightarrow> bool" where
  "config_ok c cf \<longleftrightarrow> world_ok c (store cf) \<and> (\<forall>it\<in>set (iters cf). iter_ok c (store cf) it)"

text \<open>An operation that sorts through \<open>DoSort\<close> and then only moves the cursor.\<close>

definition cursor_op ::
  "'e KeyComparator \<Rightarrow> (Iterator \<Rightarrow> 'e world \<Rightarrow> error + (Iterator \<times> 'e world)) \<Rightarrow> bool" where
  "cursor_op c f \<longleftrightarrow>
     (\<forall>it w it' w'. f it w = Inr (it', w') \<longrightarrow>
        (\<exists>it0. DoSort c it w = Inr (it0, w') \<and> it' = it0\<lparr>i_cit := i_cit it'\<rparr>))"

text \<open>
  Worlds and configurations for the examples: a \<^verbatim>\<open>VectorRep\<close> whose bucket is at address 0,
  the configuration that \<open>demo_calls\<close> reaches (five entries inserted, frozen, two iterators, the
  first one positioned by \<^verbatim>\<open>SeekToFirst\<close>), one that is still mutable, and a frozen empty one.
\<close>

definition demo_world :: "nat list \<Rightarrow> bool \<Rightarrow> bool \<Rightarrow> nat world" where
  "demo_world xs frozen srt =
     \<lparr>mem = (\<lambda>a. [])(0 := xs), storage = (\<lambda>a. False)(0 := xs \<noteq> []), brk = 1,
      vrep = \<lparr>v_bucket = 0, v_immutable = frozen, v_sorted = srt\<rparr>\<rparr>"

definition demo_calls :: "nat call list" where
  "demo_calls =
     [Insert_call 15, Insert_call 23, Insert_call 34, Insert_call 41, Insert_call 52,
      MarkReadOnly_call, GetIterator_call, SeekToFirst_call 0, GetIterator_call]"

definition demo_frozen :: "nat config" where
  "demo_frozen =
     \<lparr>store = demo_world [41, 52, 23, 34, 15] True True,
      iters = [\<lparr>i_vrep = this_vrep, i_bucket = 0, i_cit = Some 0, i_sorted = True\<rparr>,
               \<lparr>i_vrep = this_vrep, i_bucket = 0, i_cit = None, i_sorted = False\<rparr>]\<rparr>"

definition demo_mutable :: "nat config" where
  "demo_mutable = \<lparr>store = demo_world [15, 23] False False, iters = []\<rparr>"

definition demo_empty :: "nat config" where
  "demo_empty =
     \<lparr>store = demo_world [] True False,
      iters = [\<lparr>i_vrep = this_vrep, i_bucket = 0, i_cit = None, i_sorted = False\<rparr>]\<rparr>"

section \<open>Properties\<close>

subsection \<open>Sorting and searching\<close>

lemma swo_irrefl: "strict_weak_order lt \<Longrightarrow> \<not> lt a a"
  by (simp add: strict_weak_order_def)

lemma swo_trans: "strict_weak_order lt \<Longrightarrow> lt a b \<Longrightarrow> lt b d \<Longrightarrow> lt a d"
  unfolding strict_weak_order_def by blast

lemma swo_negtrans: "strict_weak_order lt \<Longrightarrow> \<not> lt a b \<Longrightarrow> \<not> lt b d \<Longrightarrow> \<not> lt a d"
  unfolding strict_weak_order_def by blast

lemma swo_asym: "strict_weak_order lt \<Longrightarrow> lt a b \<Longrightarrow> \<not> lt b a"
  using swo_irrefl swo_trans by metis

lemma mset_sort_insert: "mset (sort_insert lt x xs) = add_mset x (mset xs)"
  by (induction xs) auto

lemma mset_std_sort: "mset (std_sort lt xs) = mset xs"
  by (induction xs) (auto simp: mset_sort_insert)

lemma set_sort_insert: "set (sort_insert lt x xs) = insert x (set xs)"
  by (induction xs) auto

lemma set_std_sort: "set (std_sort lt xs) = set xs"
  by (induction xs) (auto simp: set_sort_insert)

lemma length_std_sort: "length (std_sort lt xs) = length xs"
  using mset_std_sort [of lt xs] by (metis size_mset)

lemma ordered_sort_insert:
  assumes "strict_weak_order lt" and "ordered lt xs"
  shows "ordered lt (sort_insert lt x xs)"
  using assms(2)
proof (induction xs)
  case Nil
  then show ?case by (simp add: ordered_def)
next
  case (Cons y ys)
  show ?case
  proof (cases "lt y x")
    case True
    have "\<not> lt x y" using swo_asym [OF assms(1) True] .
    with Cons True show ?thesis
      by (auto simp: ordered_def set_sort_insert)
  next
    case False
    have "\<not> lt z x" if "z \<in> set ys" for z
    proof -
      from Cons.prems that have "\<not> lt z y" by (auto simp: ordered_def)
      from swo_negtrans [OF assms(1) this False] show ?thesis .
    qed
    with Cons.prems False show ?thesis by (auto simp: ordered_def)
  qed
qed

lemma ordered_std_sort: "strict_weak_order lt \<Longrightarrow> ordered lt (std_sort lt xs)"
  by (induction xs) (auto simp: ordered_sort_insert, simp add: ordered_def)

lemma sort_insert_ordered_id:
  "ordered lt (x # xs) \<Longrightarrow> sort_insert lt x xs = x # xs"
  by (cases xs) (auto simp: ordered_def)

lemma std_sort_ordered_id: "ordered lt xs \<Longrightarrow> std_sort lt xs = xs"
proof (induction xs)
  case Nil then show ?case by simp
next
  case (Cons x xs)
  then have "ordered lt xs" by (simp add: ordered_def)
  with Cons show ?case by (simp add: sort_insert_ordered_id)
qed

lemma distinct_under_mset:
  "mset xs = mset ys \<Longrightarrow> distinct_under lt xs \<Longrightarrow> distinct_under lt ys"
  unfolding distinct_under_def
  by (metis mset_eq_setD mset_eq_imp_distinct_iff)

lemma ascending_of_ordered:
  "distinct_under lt xs \<Longrightarrow> ordered lt xs \<Longrightarrow> sorted_wrt lt xs"
proof (induction xs)
  case Nil then show ?case by simp
next
  case (Cons x xs)
  from Cons.prems have "distinct_under lt xs" "ordered lt xs"
    by (auto simp: distinct_under_def ordered_def)
  with Cons.IH have "sorted_wrt lt xs" by simp
  moreover have "lt x y" if "y \<in> set xs" for y
  proof -
    from Cons.prems(1) that have "x \<noteq> y" by (auto simp: distinct_under_def)
    with Cons.prems(1) that have "lt x y \<or> lt y x" unfolding distinct_under_def by (meson list.set_intros)
    moreover from Cons.prems(2) that have "\<not> lt y x" by (auto simp: ordered_def)
    ultimately show ?thesis by blast
  qed
  ultimately show ?case by simp
qed

lemma ascending_unique:
  assumes "strict_weak_order lt"
  shows "sorted_wrt lt xs \<Longrightarrow> sorted_wrt lt ys \<Longrightarrow> mset xs = mset ys \<Longrightarrow> xs = ys"
proof (induction xs arbitrary: ys)
  case Nil then show ?case by simp
next
  case (Cons x xs)
  then obtain y ys' where ys: "ys = y # ys'" by (cases ys) auto
  have "x = y"
  proof (rule ccontr)
    assume ne: "x \<noteq> y"
    from Cons.prems(3) ys have "x \<in> set ys" "y \<in> set (x # xs)"
      by (metis list.set_intros(1) mset_eq_setD)+
    with ne ys have "x \<in> set ys'" "y \<in> set xs" by auto
    with Cons.prems(1,2) ys have "lt y x" "lt x y" by auto
    with swo_asym [OF assms] show False by blast
  qed
  with Cons ys show ?case by auto
qed

lemma std_sort_unique:
  assumes "strict_weak_order lt" and "distinct_under lt xs"
    and "mset ys = mset xs" and "ordered lt ys"
  shows "ys = std_sort lt xs"
proof -
  have d: "distinct_under lt ys" using distinct_under_mset [OF assms(3) [symmetric] assms(2)] .
  have d': "distinct_under lt (std_sort lt xs)"
    using distinct_under_mset [OF mset_std_sort [symmetric] assms(2)] .
  show ?thesis
    using ascending_unique [OF assms(1) ascending_of_ordered [OF d assms(4)]
        ascending_of_ordered [OF d' ordered_std_sort [OF assms(1)]]]
    by (simp add: assms(3) mset_std_sort)
qed

lemma lower_bound_partition:
  "xs = ys @ zs \<Longrightarrow> (\<forall>y\<in>set ys. lt y val) \<Longrightarrow> (\<forall>z\<in>set zs. \<not> lt z val) \<Longrightarrow>
   lower_bound lt xs val = length ys"
proof (induction lt xs val arbitrary: ys zs rule: lower_bound.induct)
  case (1 lt xs val)
  show ?case
  proof (cases "0 < length xs")
    case False
    with "1.prems" show ?thesis by (simp add: lower_bound.simps)
  next
    case True
    define half where "half = length xs div 2"
    have hl: "half < length xs" using True by (simp add: half_def)
    show ?thesis
    proof (cases "lt (xs ! half) val")
      case lt: True
      have "half < length ys"
      proof (rule ccontr)
        assume "\<not> half < length ys"
        with hl "1.prems"(1) have "xs ! half \<in> set zs"
          by (simp add: nth_append)
        with "1.prems"(3) lt show False by blast
      qed
      then have d: "drop (half + 1) xs = drop (half + 1) ys @ zs"
        using "1.prems"(1) by simp
      have "\<forall>y\<in>set (drop (half + 1) ys). lt y val"
        using "1.prems"(2) by (meson in_set_dropD)
      from "1.IH"(1) [OF True half_def refl lt d this "1.prems"(3)]
      have "lower_bound lt (drop (half + 1) xs) val = length ys - (half + 1)" by simp
      with \<open>half < length ys\<close> True lt show ?thesis
        by (subst lower_bound.simps) (simp add: half_def Let_def)
    next
      case nlt: False
      have "length ys \<le> half"
      proof (rule ccontr)
        assume "\<not> length ys \<le> half"
        with "1.prems"(1) have "xs ! half \<in> set ys" by (simp add: nth_append)
        with "1.prems"(2) nlt show False by blast
      qed
      then have t: "take half xs = ys @ take (half - length ys) zs"
        using "1.prems"(1) by simp
      have "\<forall>z\<in>set (take (half - length ys) zs). \<not> lt z val"
        using "1.prems"(3) by (meson in_set_takeD)
      from "1.IH"(2) [OF True half_def refl nlt t "1.prems"(2) this]
      show ?thesis using True nlt
        by (subst lower_bound.simps) (simp add: half_def Let_def)
    qed
  qed
qed

lemma equal_range_first_partition:
  "xs = ys @ zs \<Longrightarrow> (\<forall>y\<in>set ys. lt y val) \<Longrightarrow> (\<forall>z\<in>set zs. \<not> lt z val) \<Longrightarrow>
   fst (equal_range lt xs val) = length ys"
proof (induction lt xs val arbitrary: ys zs rule: equal_range.induct)
  case (1 lt xs val)
  show ?case
  proof (cases "0 < length xs")
    case False
    with "1.prems" show ?thesis by (simp add: equal_range.simps)
  next
    case True
    define half where "half = length xs div 2"
    have hl: "half < length xs" using True by (simp add: half_def)
    show ?thesis
    proof (cases "lt (xs ! half) val")
      case lt: True
      have "half < length ys"
      proof (rule ccontr)
        assume "\<not> half < length ys"
        with hl "1.prems"(1) have "xs ! half \<in> set zs"
          by (simp add: nth_append)
        with "1.prems"(3) lt show False by blast
      qed
      then have d: "drop (half + 1) xs = drop (half + 1) ys @ zs"
        using "1.prems"(1) by simp
      have "\<forall>y\<in>set (drop (half + 1) ys). lt y val"
        using "1.prems"(2) by (meson in_set_dropD)
      from "1.IH"(1) [OF True half_def refl lt d this "1.prems"(3)]
      have "fst (equal_range lt (drop (half + 1) xs) val) = length ys - (half + 1)" by simp
      with \<open>half < length ys\<close> True lt show ?thesis
        by (subst equal_range.simps) (simp add: half_def Let_def case_prod_beta)
    next
      case nlt: False
      have le: "length ys \<le> half"
      proof (rule ccontr)
        assume "\<not> length ys \<le> half"
        with "1.prems"(1) have "xs ! half \<in> set ys" by (simp add: nth_append)
        with "1.prems"(2) nlt show False by blast
      qed
      then have t: "take half xs = ys @ take (half - length ys) zs"
        using "1.prems"(1) by simp
      have z: "\<forall>z\<in>set (take (half - length ys) zs). \<not> lt z val"
        using "1.prems"(3) by (meson in_set_takeD)
      show ?thesis
      proof (cases "lt val (xs ! half)")
        case True': True
        from "1.IH"(2) [OF True half_def refl nlt True' t "1.prems"(2) z]
        show ?thesis using True nlt True'
          by (subst equal_range.simps) (simp add: half_def Let_def)
      next
        case False
        from lower_bound_partition [of "take half xs" ys "take (half - length ys) zs" lt val, OF t "1.prems"(2) z]
        show ?thesis using True nlt False
          by (subst equal_range.simps) (simp add: half_def Let_def)
      qed
    qed
  qed
qed

lemma ordered_partition:
  assumes swo: "strict_weak_order lt"
  shows "ordered lt xs \<Longrightarrow> z \<in> set (dropWhile (\<lambda>x. lt x t) xs) \<Longrightarrow> \<not> lt z t"
proof (induction xs)
  case Nil
  then show ?case by simp
next
  case (Cons x xs)
  from Cons.prems(1) have o: "ordered lt xs" by (simp add: ordered_def)
  show ?case
  proof (cases "lt x t")
    case True
    then have "dropWhile (\<lambda>x. lt x t) (x # xs) = dropWhile (\<lambda>x. lt x t) xs" by simp
    with Cons.prems(2) have "z \<in> set (dropWhile (\<lambda>x. lt x t) xs)" by simp
    from Cons.IH [OF o this] show ?thesis .
  next
    case False
    then have "dropWhile (\<lambda>x. lt x t) (x # xs) = x # xs" by simp
    with Cons.prems(2) have "z = x \<or> z \<in> set xs" by simp
    then show ?thesis
    proof
      assume "z = x" with False show ?thesis by simp
    next
      assume "z \<in> set xs"
      with Cons.prems(1) have "\<not> lt z x" by (simp add: ordered_def)
      from swo_negtrans [OF swo this False] show ?thesis .
    qed
  qed
qed

lemma equal_range_first:
  assumes "strict_weak_order lt" and "ordered lt xs"
  shows "fst (equal_range lt xs t) = length (takeWhile (\<lambda>x. lt x t) xs)"
proof (rule equal_range_first_partition)
  show "xs = takeWhile (\<lambda>x. lt x t) xs @ dropWhile (\<lambda>x. lt x t) xs" by simp
  show "\<forall>y\<in>set (takeWhile (\<lambda>x. lt x t) xs). lt y t" by (meson set_takeWhileD)
  show "\<forall>z\<in>set (dropWhile (\<lambda>x. lt x t) xs). \<not> lt z t"
    using ordered_partition [OF assms] by blast
qed

subsection \<open>DoSort by cases\<close>

lemma DoSort_done:
  "i_sorted it \<Longrightarrow> i_vrep it = nullptr \<or> v_sorted (vrep w) \<Longrightarrow> DoSort c it w = Inr (it, w)"
  by (auto simp: DoSort_def)

lemma DoSort_stale:
  "i_sorted it \<Longrightarrow> i_vrep it = this_vrep \<Longrightarrow> \<not> v_sorted (vrep w) \<Longrightarrow>
   DoSort c it w = Inl AssertionFailed"
  by (simp add: DoSort_def)

lemma DoSort_private:
  "\<not> i_sorted it \<Longrightarrow> i_vrep it = nullptr \<Longrightarrow>
   DoSort c it w =
     Inr (it\<lparr>i_cit := Some 0, i_sorted := True\<rparr>,
          w\<lparr>mem := (mem w)(i_bucket it := std_sort (Compare c) (bucket_of it w))\<rparr>)"
  by (simp add: DoSort_def sort_and_rewind_def)

lemma DoSort_shared_first:
  "\<not> i_sorted it \<Longrightarrow> i_vrep it = this_vrep \<Longrightarrow> \<not> v_sorted (vrep w) \<Longrightarrow>
   DoSort c it w =
     Inr (it\<lparr>i_cit := Some 0, i_sorted := True\<rparr>,
          w\<lparr>mem := (mem w)(i_bucket it := std_sort (Compare c) (bucket_of it w)),
            vrep := (vrep w)\<lparr>v_sorted := True\<rparr>\<rparr>)"
  by (simp add: DoSort_def sort_and_rewind_def)

lemma DoSort_shared_later:
  "\<not> i_sorted it \<Longrightarrow> i_vrep it = this_vrep \<Longrightarrow> v_sorted (vrep w) \<Longrightarrow>
   DoSort c it w = Inr (it\<lparr>i_sorted := True\<rparr>, w)"
  by (simp add: DoSort_def)

lemma DoSort_result:
  assumes "DoSort c it w = Inr (it', w')"
  shows "i_sorted it' \<and> i_bucket it' = i_bucket it \<and> i_vrep it' = i_vrep it \<and>
         brk w' = brk w \<and>
         length (mem w' (i_bucket it)) = length (bucket_of it w) \<and>
         (i_vrep it' = nullptr \<or> v_sorted (vrep w')) \<and>
         (i_sorted it \<longrightarrow> it' = it \<and> w' = w)"
proof (cases "i_sorted it")
  case True
  show ?thesis
  proof (cases "i_vrep it = nullptr \<or> v_sorted (vrep w)")
    case True
    with \<open>i_sorted it\<close> assms show ?thesis by (auto simp: DoSort_done)
  next
    case False
    then have "i_vrep it = this_vrep" by (cases "i_vrep it") auto
    with False \<open>i_sorted it\<close> assms show ?thesis by (simp add: DoSort_stale)
  qed
next
  case False
  show ?thesis
  proof (cases "i_vrep it")
    case nullptr
    with False assms show ?thesis by (auto simp: DoSort_private length_std_sort)
  next
    case this_vrep
    with False assms show ?thesis
      by (cases "v_sorted (vrep w)")
        (auto simp: DoSort_shared_first DoSort_shared_later length_std_sort)
  qed
qed

lemma push_back_simps [simp]:
  "mem (push_back x b w) = (mem w)(b := mem w b @ [x])"
  "storage (push_back x b w) = (storage w)(b := True)"
  "brk (push_back x b w) = brk w"
  "vrep (push_back x b w) = vrep w"
  by (simp_all add: push_back_def)

lemma at_end_Some: "i_cit it = Some i \<Longrightarrow> at_end it w \<longleftrightarrow> i = length (bucket_of it w)"
  by (simp add: at_end_def)

lemma at_begin_Some: "i_cit it = Some i \<Longrightarrow> at_begin it w \<longleftrightarrow> i = 0"
  by (simp add: at_begin_def)

lemma at_end_cit [simp]: "at_end (it\<lparr>i_cit := Some i\<rparr>) w \<longleftrightarrow> i = length (bucket_of it w)"
  by (simp add: at_end_def)

lemma at_begin_cit [simp]: "at_begin (it\<lparr>i_cit := Some i\<rparr>) w \<longleftrightarrow> i = 0"
  by (simp add: at_begin_def)

lemma Valid_result:
  assumes "Valid c it w = Inr (v, it', w')"
  shows "DoSort c it w = Inr (it', w') \<and> v = (\<not> at_end it' w')"
  using assms by (auto simp: Valid_def and_then_eq_Inr)

lemma Valid_sorted:
  assumes "i_sorted it" and "i_vrep it = nullptr \<or> v_sorted (vrep w)"
  shows "Valid c it w = Inr (\<not> at_end it w, it, w)"
  using assms by (simp add: Valid_def DoSort_done)

lemma key_sorted:
  assumes "i_sorted it" and "i_vrep it = nullptr \<or> v_sorted (vrep w)"
    and "i_cit it = Some i" and "i < length (bucket_of it w)"
  shows "key c it w = Inr (bucket_of it w ! i, it, w)"
  using assms by (simp add: key_def Valid_sorted at_end_Some)

lemma Next_sorted:
  assumes "i_sorted it" and "i_vrep it = nullptr \<or> v_sorted (vrep w)"
    and "i_cit it = Some i" and "i < length (bucket_of it w)"
  shows "Next c it w = Inr (it\<lparr>i_cit := Some (i + 1)\<rparr>, w)"
  using assms by (simp add: Next_def Valid_sorted at_end_Some)

lemma Valid_null_cursor:
  assumes "i_sorted it" and "i_vrep it = nullptr \<or> v_sorted (vrep w)" and "i_cit it = None"
  shows "Valid c it w = Inr (storage w (i_bucket it), it, w)"
    and "key c it w =
           Inl (if storage w (i_bucket it) then UndefinedBehaviour else AssertionFailed)"
  using assms by (simp_all add: key_def Valid_sorted at_end_def)

lemma key_result:
  assumes "key c it w = Inr (k, it', w')"
  shows "DoSort c it w = Inr (it', w') \<and>
         (\<exists>i. i_cit it' = Some i \<and> i < length (bucket_of it' w') \<and> k = bucket_of it' w' ! i)"
  using assms
  by (auto simp: key_def and_then_eq_Inr dest!: Valid_result split: if_splits option.splits)

lemma Next_result:
  assumes "Next c it w = Inr (it', w')"
  shows "\<exists>it0 i. DoSort c it w = Inr (it0, w') \<and> i_cit it0 = Some i \<and>
           i < length (bucket_of it0 w') \<and> it' = it0\<lparr>i_cit := Some (i + 1)\<rparr>"
  using assms
  by (auto simp: Next_def and_then_eq_Inr dest!: Valid_result split: if_splits option.splits)

lemma remaining_decreases:
  assumes v: "Valid c it w = Inr (True, it1, w1)"
    and k: "key c it1 w1 = Inr (k, it2, w2)"
    and n: "Next c it2 w2 = Inr (it3, w3)"
  shows "remaining it3 w3 < remaining it w"
proof -
  from Valid_result [OF v] have d1: "DoSort c it w = Inr (it1, w1)" by simp
  note r1 = DoSort_result [OF d1]
  from key_result [OF k] obtain i where d2: "DoSort c it1 w1 = Inr (it2, w2)"
    and i: "i_cit it2 = Some i" "i < length (bucket_of it2 w2)" by blast
  from DoSort_result [OF d2] r1 have e2: "it2 = it1" "w2 = w1" by simp_all
  from Next_result [OF n] obtain it0 j where d3: "DoSort c it2 w2 = Inr (it0, w3)"
    and j: "i_cit it0 = Some j" "j < length (bucket_of it0 w3)" "it3 = it0\<lparr>i_cit := Some (j + 1)\<rparr>"
    by blast
  from DoSort_result [OF d3] r1 e2 have e3: "it0 = it1" "w3 = w1" by simp_all
  from i j e2 e3 have ij: "j = i" by simp
  have a: "remaining it3 w3 = length (bucket_of it1 w1) - (i + 1)"
    using j e3 r1 ij by (simp add: remaining_def)
  have len: "length (bucket_of it1 w1) = length (bucket_of it w)" using r1 by metis
  show ?thesis
  proof (cases "i_sorted it")
    case True
    with r1 have "it1 = it" "w1 = w" by simp_all
    with i e2 True have "remaining it w = length (bucket_of it1 w1) - i" by (simp add: remaining_def)
    with a i e2 show ?thesis by simp
  next
    case False
    then have "Suc (length (bucket_of it w)) \<le> remaining it w" by (simp add: remaining_def)
    with a len show ?thesis by simp
  qed
qed

termination collect
  by (relation "measure (\<lambda>(c, it, w). remaining it w)") (auto intro: remaining_decreases)

declare collect.simps [simp del]

subsection \<open>Reachable configurations\<close>

lemma iter_ok_cit [simp]: "iter_ok c w (it\<lparr>i_cit := x\<rparr>) = iter_ok c w it"
  by (cases "i_vrep it") (simp_all add: iter_ok_def)

lemma DoSort_keeps_ok:
  assumes swo: "strict_weak_order (Compare c)"
    and w: "world_ok c w" and i: "iter_ok c w it"
    and d: "DoSort c it w = Inr (it', w')"
  shows "world_ok c w'" and "iter_ok c w' it'" and "iter_ok c w it2 \<Longrightarrow> iter_ok c w' it2"
    and "v_sorted (vrep w) \<Longrightarrow> i_vrep it = this_vrep \<Longrightarrow> w' = w"
    and "v_sorted (vrep w) \<Longrightarrow> mem w' (v_bucket (vrep w)) = the_bucket w \<and> vrep w' = vrep w"
proof -
  note o = ordered_std_sort [OF swo]
  consider (settled) "i_sorted it" "i_vrep it = nullptr \<or> v_sorted (vrep w)"
    | (stale) "i_sorted it" "i_vrep it = this_vrep" "\<not> v_sorted (vrep w)"
    | (own) "\<not> i_sorted it" "i_vrep it = nullptr"
    | (first) "\<not> i_sorted it" "i_vrep it = this_vrep" "\<not> v_sorted (vrep w)"
    | (later) "\<not> i_sorted it" "i_vrep it = this_vrep" "v_sorted (vrep w)"
    by (cases "i_vrep it") auto
  then have "world_ok c w' \<and> iter_ok c w' it' \<and> (iter_ok c w it2 \<longrightarrow> iter_ok c w' it2) \<and>
    (v_sorted (vrep w) \<longrightarrow> i_vrep it = this_vrep \<longrightarrow> w' = w) \<and>
    (v_sorted (vrep w) \<longrightarrow> mem w' (v_bucket (vrep w)) = the_bucket w \<and> vrep w' = vrep w)"
  proof cases
    case settled
    with d have "it' = it" "w' = w" by (simp_all add: DoSort_done)
    with w i show ?thesis by simp
  next
    case stale
    with d show ?thesis by (simp add: DoSort_stale)
  next
    case own
    from d own have e: "it' = it\<lparr>i_cit := Some 0, i_sorted := True\<rparr>"
      "w' = w\<lparr>mem := (mem w)(i_bucket it := std_sort (Compare c) (bucket_of it w))\<rparr>"
      by (simp_all add: DoSort_private)
    from i own have ne: "i_bucket it \<noteq> v_bucket (vrep w)" by (simp add: iter_ok_def)
    have 1: "world_ok c w'" using w e ne by (simp add: world_ok_def)
    have 2: "iter_ok c w' it'" using i e own o by (simp add: iter_ok_def)
    have 3: "iter_ok c w it2 \<longrightarrow> iter_ok c w' it2"
      using e ne o by (cases "i_vrep it2") (auto simp: iter_ok_def)
    from 1 2 3 e ne own show ?thesis by simp
  next
    case first
    from d first have e: "it' = it\<lparr>i_cit := Some 0, i_sorted := True\<rparr>"
      "w' = w\<lparr>mem := (mem w)(i_bucket it := std_sort (Compare c) (bucket_of it w)),
            vrep := (vrep w)\<lparr>v_sorted := True\<rparr>\<rparr>"
      by (simp_all add: DoSort_shared_first)
    from i first have b: "i_bucket it = v_bucket (vrep w)" "v_immutable (vrep w)"
      by (simp_all add: iter_ok_def)
    have 1: "world_ok c w'" using w e b o by (simp add: world_ok_def)
    have 2: "iter_ok c w' it'" using i e first b by (simp add: iter_ok_def)
    have 3: "iter_ok c w it2 \<longrightarrow> iter_ok c w' it2"
      using e b by (cases "i_vrep it2") (auto simp: iter_ok_def)
    from 1 2 3 first show ?thesis by simp
  next
    case later
    with d have e: "it' = it\<lparr>i_sorted := True\<rparr>" "w' = w" by (simp_all add: DoSort_shared_later)
    with w i later show ?thesis by (simp add: iter_ok_def)
  qed
  then show "world_ok c w'" and "iter_ok c w' it'" and "iter_ok c w it2 \<Longrightarrow> iter_ok c w' it2"
    and "v_sorted (vrep w) \<Longrightarrow> i_vrep it = this_vrep \<Longrightarrow> w' = w"
    and "v_sorted (vrep w) \<Longrightarrow> mem w' (v_bucket (vrep w)) = the_bucket w \<and> vrep w' = vrep w"
    by blast+
qed

lemma cursor_opI:
  assumes "\<And>it w it' w'. f it w = Inr (it', w') \<Longrightarrow>
             \<exists>it0 x. DoSort c it w = Inr (it0, w') \<and> it' = it0\<lparr>i_cit := x\<rparr>"
  shows "cursor_op c f"
  unfolding cursor_op_def
proof (intro allI impI)
  fix it w it' w' assume "f it w = Inr (it', w')"
  from assms [OF this] obtain it0 x where "DoSort c it w = Inr (it0, w')" "it' = it0\<lparr>i_cit := x\<rparr>"
    by blast
  then show "\<exists>it0. DoSort c it w = Inr (it0, w') \<and> it' = it0\<lparr>i_cit := i_cit it'\<rparr>"
    by (intro exI [of _ it0]) simp
qed

lemma cursor_op_Valid:
  "cursor_op c (\<lambda>it w. and_then (Valid c it w) (\<lambda>(v, it', w'). Inr (it', w')))"
proof (rule cursor_opI)
  fix it w it' w'
  assume "and_then (Valid c it w) (\<lambda>(v, it', w'). Inr (it', w')) = Inr (it', w')"
  then obtain v where "Valid c it w = Inr (v, it', w')" by (auto simp: and_then_eq_Inr)
  from Valid_result [OF this] have "DoSort c it w = Inr (it', w')" by simp
  then show "\<exists>it0 x. DoSort c it w = Inr (it0, w') \<and> it' = it0\<lparr>i_cit := x\<rparr>"
    by (intro exI [of _ it'] exI [of _ "i_cit it'"]) simp
qed

lemma cursor_op_key:
  "cursor_op c (\<lambda>it w. and_then (key c it w) (\<lambda>(k, it', w'). Inr (it', w')))"
proof (rule cursor_opI)
  fix it w it' w'
  assume "and_then (key c it w) (\<lambda>(k, it', w'). Inr (it', w')) = Inr (it', w')"
  then obtain k where "key c it w = Inr (k, it', w')" by (auto simp: and_then_eq_Inr)
  from key_result [OF this] have "DoSort c it w = Inr (it', w')" by simp
  then show "\<exists>it0 x. DoSort c it w = Inr (it0, w') \<and> it' = it0\<lparr>i_cit := x\<rparr>"
    by (intro exI [of _ it'] exI [of _ "i_cit it'"]) simp
qed

lemma cursor_op_Next: "cursor_op c (Next c)"
proof (rule cursor_opI)
  fix it w it' w' assume "Next c it w = Inr (it', w')"
  from Next_result [OF this]
  show "\<exists>it0 x. DoSort c it w = Inr (it0, w') \<and> it' = it0\<lparr>i_cit := x\<rparr>" by blast
qed

lemma Prev_result:
  assumes "Prev c it w = Inr (it', w')"
  shows "\<exists>it0. DoSort c it w = Inr (it0, w') \<and>
           \<not> at_end it0 w' \<and>
           (if at_begin it0 w' then it' = it0\<lparr>i_cit := Some (length (bucket_of it0 w'))\<rparr>
            else \<exists>i. i_cit it0 = Some i \<and> 0 < i \<and> i \<le> length (bucket_of it0 w') \<and>
                     it' = it0\<lparr>i_cit := Some (i - 1)\<rparr>)"
proof -
  from assms obtain v it0 w0 where v: "Valid c it w = Inr (v, it0, w0)"
    and r: "(if \<not> v then Inl AssertionFailed
          else if at_begin it0 w0
          then Inr (it0\<lparr>i_cit := Some (length (bucket_of it0 w0))\<rparr>, w0)
          else (case i_cit it0 of
                  None \<Rightarrow> Inl UndefinedBehaviour
                | Some i \<Rightarrow>
                    if 0 < i \<and> i \<le> length (bucket_of it0 w0)
                    then Inr (it0\<lparr>i_cit := Some (i - 1)\<rparr>, w0)
                    else Inl UndefinedBehaviour)) = Inr (it', w')"
    unfolding Prev_def and_then_eq_Inr by auto
  from Valid_result [OF v] have d: "DoSort c it w = Inr (it0, w0)"
    and v': "v = (\<not> at_end it0 w0)" by simp_all
  from r have "v" by (simp split: if_splits)
  show ?thesis
  proof (cases "at_begin it0 w0")
    case True
    with r \<open>v\<close> have "w0 = w'" "it' = it0\<lparr>i_cit := Some (length (bucket_of it0 w0))\<rparr>" by auto
    with d v' \<open>v\<close> True show ?thesis by auto
  next
    case False
    with r \<open>v\<close> obtain i where "i_cit it0 = Some i" "0 < i" "i \<le> length (bucket_of it0 w0)"
      "w0 = w'" "it' = it0\<lparr>i_cit := Some (i - 1)\<rparr>"
      by (cases "i_cit it0") (auto simp: at_begin_def split: if_splits)
    with d v' \<open>v\<close> False show ?thesis by auto
  qed
qed

lemma cursor_op_Prev: "cursor_op c (Prev c)"
proof (rule cursor_opI)
  fix it w it' w' assume "Prev c it w = Inr (it', w')"
  from Prev_result [OF this]
  show "\<exists>it0 x. DoSort c it w = Inr (it0, w') \<and> it' = it0\<lparr>i_cit := x\<rparr>"
    by (metis (full_types))
qed

lemma Seek_result:
  assumes "Seek c target it w = Inr (it', w')"
  shows "\<exists>it0. DoSort c it w = Inr (it0, w') \<and>
           it' = it0\<lparr>i_cit := Some (fst (equal_range (\<lambda>a b. c a b < 0) (bucket_of it0 w') target))\<rparr>"
  using assms unfolding Seek_def and_then_eq_Inr by auto

lemma SeekToFirst_result:
  assumes "SeekToFirst c it w = Inr (it', w')"
  shows "\<exists>it0. DoSort c it w = Inr (it0, w') \<and> it' = it0\<lparr>i_cit := Some 0\<rparr>"
  using assms unfolding SeekToFirst_def and_then_eq_Inr by auto

lemma SeekToLast_result:
  assumes "SeekToLast c it w = Inr (it', w')"
  shows "\<exists>it0. DoSort c it w = Inr (it0, w') \<and>
           it' = it0\<lparr>i_cit := Some (length (bucket_of it0 w') - 1)\<rparr>"
  using assms unfolding SeekToLast_def and_then_eq_Inr by (auto simp: Let_def split: if_splits)

lemma cursor_op_Seek: "cursor_op c (Seek c target)"
  by (rule cursor_opI) (blast dest: Seek_result)

lemma cursor_op_SeekToFirst: "cursor_op c (SeekToFirst c)"
  by (rule cursor_opI) (blast dest: SeekToFirst_result)

lemma cursor_op_SeekToLast: "cursor_op c (SeekToLast c)"
  by (rule cursor_opI) (blast dest: SeekToLast_result)

lemma on_iterator_result:
  assumes "on_iterator n f cf = Inr cf'"
  shows "n < length (iters cf) \<and>
         (\<exists>it' w'. f (iters cf ! n) (store cf) = Inr (it', w') \<and>
                    cf' = \<lparr>store = w', iters = (iters cf)[n := it']\<rparr>)"
  using assms by (auto simp: on_iterator_def and_then_eq_Inr split: if_splits)

lemma on_iterator_ok:
  assumes swo: "strict_weak_order (Compare c)" and f: "cursor_op c f"
    and ok: "config_ok c cf" and r: "on_iterator n f cf = Inr cf'"
  shows "config_ok c cf'"
    and "v_sorted (vrep (store cf)) \<Longrightarrow>
         mem (store cf') (v_bucket (vrep (store cf))) = the_bucket (store cf) \<and> vrep (store cf') = vrep (store cf)"
proof -
  from on_iterator_result [OF r] obtain it' w' where n: "n < length (iters cf)"
    and r': "f (iters cf ! n) (store cf) = Inr (it', w')"
    and cf': "cf' = \<lparr>store = w', iters = (iters cf)[n := it']\<rparr>" by blast
  from f r' obtain it0 where d: "DoSort c (iters cf ! n) (store cf) = Inr (it0, w')"
    and it': "it' = it0\<lparr>i_cit := i_cit it'\<rparr>" unfolding cursor_op_def by blast
  from ok have w: "world_ok c (store cf)" and all: "\<forall>it\<in>set (iters cf). iter_ok c (store cf) it"
    by (simp_all add: config_ok_def)
  from all n have i: "iter_ok c (store cf) (iters cf ! n)" by simp
  note k = DoSort_keeps_ok [OF swo w i d]
  have "iter_ok c w' it'" using k(2) it' by (metis iter_ok_cit)
  moreover have "iter_ok c w' x" if "x \<in> set (iters cf)" for x
    using k(3) all that by blast
  ultimately have "\<forall>x\<in>set ((iters cf)[n := it']). iter_ok c w' x"
    using set_update_subset_insert [of "iters cf" n it'] by blast
  with k(1) cf' show "config_ok c cf'" by (simp add: config_ok_def)
  show "mem (store cf') (v_bucket (vrep (store cf))) = the_bucket (store cf) \<and> vrep (store cf') = vrep (store cf)"
    if "v_sorted (vrep (store cf))"
    using k(5) [OF that] cf' by simp
qed

lemma perform_cases:
  obtains k where "call = Insert_call k"
  | "call = MarkReadOnly_call"
  | "call = GetIterator_call"
  | n f where "cursor_op c f" "perform c call cf = on_iterator n f cf"
proof (cases call)
  case (Valid_call n)
  then have "perform c call cf =
    on_iterator n (\<lambda>it w. and_then (Valid c it w) (\<lambda>(v, it', w'). Inr (it', w'))) cf" by simp
  with cursor_op_Valid show ?thesis by (rule that(4))
next
  case (key_call n)
  then have "perform c call cf =
    on_iterator n (\<lambda>it w. and_then (key c it w) (\<lambda>(k, it', w'). Inr (it', w'))) cf" by simp
  with cursor_op_key show ?thesis by (rule that(4))
next
  case (Next_call n)
  then have "perform c call cf = on_iterator n (Next c) cf" by simp
  with cursor_op_Next show ?thesis by (rule that(4))
next
  case (Prev_call n)
  then have "perform c call cf = on_iterator n (Prev c) cf" by simp
  with cursor_op_Prev show ?thesis by (rule that(4))
next
  case (Seek_call n t)
  then have "perform c call cf = on_iterator n (Seek c t) cf" by simp
  with cursor_op_Seek show ?thesis by (rule that(4))
next
  case (SeekToFirst_call n)
  then have "perform c call cf = on_iterator n (SeekToFirst c) cf" by simp
  with cursor_op_SeekToFirst show ?thesis by (rule that(4))
next
  case (SeekToLast_call n)
  then have "perform c call cf = on_iterator n (SeekToLast c) cf" by simp
  with cursor_op_SeekToLast show ?thesis by (rule that(4))
qed (use that in auto)

lemma VectorRep_new_eq:
  "VectorRep_new cnt =
     \<lparr>mem = (\<lambda>a. []), storage = (\<lambda>a. False)(0 := 0 < cnt), brk = Suc 0,
      vrep = \<lparr>v_bucket = 0, v_immutable = False, v_sorted = False\<rparr>\<rparr>"
  by (simp add: VectorRep_new_def new_Bucket_def reserve_def fun_eq_iff)

lemma config_ok_initial: "config_ok c (initial cnt)"
  by (simp add: config_ok_def initial_def world_ok_def VectorRep_new_eq)

lemma perform_ok:
  assumes swo: "strict_weak_order (Compare c)"
    and ok: "config_ok c cf" and p: "perform c call cf = Inr cf'"
  shows "config_ok c cf'"
proof (cases call rule: perform_cases [where c = c and cf = cf])
  case (1 k)
  with p obtain w' where i: "Insert k (store cf) = Inr w'" and cf': "cf' = cf\<lparr>store := w'\<rparr>"
    by (auto simp: and_then_eq_Inr)
  from i have nim: "\<not> v_immutable (vrep (store cf))"
    and w': "w' = push_back k (v_bucket (vrep (store cf))) (store cf)"
    by (auto simp: Insert_def split: if_splits)
  from ok nim have ns: "\<not> v_sorted (vrep (store cf))" by (auto simp: config_ok_def world_ok_def)
  have "iter_ok c w' it" if "iter_ok c (store cf) it" for it
    using that nim w' by (cases "i_vrep it") (auto simp: iter_ok_def push_back_def)
  with ok ns w' cf' show ?thesis by (auto simp: config_ok_def world_ok_def push_back_def)
next
  case 2
  with p have cf': "cf' = cf\<lparr>store := MarkReadOnly (store cf)\<rparr>" by simp
  have "iter_ok c (MarkReadOnly (store cf)) it" if "iter_ok c (store cf) it" for it
    using that by (cases "i_vrep it") (auto simp: iter_ok_def MarkReadOnly_def)
  with ok cf' show ?thesis by (auto simp: config_ok_def world_ok_def MarkReadOnly_def)
next
  case 3
  show ?thesis
  proof (cases "v_immutable (vrep (store cf))")
    case True
    with p 3 have cf': "cf' = \<lparr>store = store cf,
        iters = iters cf @ [Iterator_new this_vrep (v_bucket (vrep (store cf)))]\<rparr>"
      by (auto simp: GetIterator_def)
    from ok True have "iter_ok c (store cf) (Iterator_new this_vrep (v_bucket (vrep (store cf))))"
      by (simp add: iter_ok_def Iterator_new_def config_ok_def world_ok_def)
    with ok cf' show ?thesis by (auto simp: config_ok_def)
  next
    case False
    define w' where "w' = (store cf)\<lparr>mem := (mem (store cf))(brk (store cf) := the_bucket (store cf)),
        storage := (storage (store cf))(brk (store cf) := the_bucket (store cf) \<noteq> []),
        brk := Suc (brk (store cf))\<rparr>"
    from p 3 False have cf': "cf' = \<lparr>store = w',
        iters = iters cf @ [Iterator_new nullptr (brk (store cf))]\<rparr>"
      by (auto simp: GetIterator_def new_Bucket_def w'_def)
    from ok have lt: "v_bucket (vrep (store cf)) < brk (store cf)"
      by (simp add: config_ok_def world_ok_def)
    then have 1: "iter_ok c w' (Iterator_new nullptr (brk (store cf)))"
      by (simp add: iter_ok_def Iterator_new_def w'_def)
    have 2: "iter_ok c w' it" if "iter_ok c (store cf) it" for it
      using that by (cases "i_vrep it") (auto simp: iter_ok_def w'_def)
    have 3: "world_ok c w'" using ok lt by (auto simp: config_ok_def world_ok_def w'_def)
    from 1 2 3 ok cf' show ?thesis by (auto simp: config_ok_def)
  qed
next
  case (4 n f)
  with p have "on_iterator n f cf = Inr cf'" by simp
  from on_iterator_ok(1) [OF swo 4(1) ok this] show ?thesis .
qed

lemma run_ok:
  assumes swo: "strict_weak_order (Compare c)"
  shows "config_ok c cf \<Longrightarrow> run c calls cf = Inr cf' \<Longrightarrow> config_ok c cf'"
proof (induction calls arbitrary: cf)
  case Nil
  then show ?case by simp
next
  case (Cons x xs)
  from Cons.prems(2) obtain cf1 where 1: "perform c x cf = Inr cf1" and 2: "run c xs cf1 = Inr cf'"
    by (auto simp: and_then_eq_Inr)
  from Cons.IH [OF perform_ok [OF swo Cons.prems(1) 1] 2] show ?case .
qed

lemma DoSort_frame:
  assumes "DoSort c it w = Inr (it', w')"
  shows "v_bucket (vrep w') = v_bucket (vrep w)"
    and "v_immutable (vrep w') = v_immutable (vrep w)"
    and "v_sorted (vrep w) \<Longrightarrow> v_sorted (vrep w')"
    and "brk w' = brk w"
    and "mset (mem w' a) = mset (mem w a)"
proof -
  consider (settled) "i_sorted it" "i_vrep it = nullptr \<or> v_sorted (vrep w)"
    | (stale) "i_sorted it" "i_vrep it = this_vrep" "\<not> v_sorted (vrep w)"
    | (own) "\<not> i_sorted it" "i_vrep it = nullptr"
    | (first) "\<not> i_sorted it" "i_vrep it = this_vrep" "\<not> v_sorted (vrep w)"
    | (later) "\<not> i_sorted it" "i_vrep it = this_vrep" "v_sorted (vrep w)"
    by (cases "i_vrep it") auto
  then have "v_bucket (vrep w') = v_bucket (vrep w) \<and>
      v_immutable (vrep w') = v_immutable (vrep w) \<and>
      (v_sorted (vrep w) \<longrightarrow> v_sorted (vrep w')) \<and> brk w' = brk w \<and>
      mset (mem w' a) = mset (mem w a)"
  proof cases
    case settled with assms show ?thesis by (auto simp: DoSort_done)
  next
    case stale with assms show ?thesis by (simp add: DoSort_stale)
  next
    case own with assms show ?thesis by (auto simp: DoSort_private mset_std_sort)
  next
    case first with assms show ?thesis by (auto simp: DoSort_shared_first mset_std_sort)
  next
    case later with assms show ?thesis by (auto simp: DoSort_shared_later)
  qed
  then show "v_bucket (vrep w') = v_bucket (vrep w)"
    and "v_immutable (vrep w') = v_immutable (vrep w)"
    and "v_sorted (vrep w) \<Longrightarrow> v_sorted (vrep w')"
    and "brk w' = brk w"
    and "mset (mem w' a) = mset (mem w a)" by blast+
qed

lemma perform_frame:
  assumes "perform c call cf = Inr cf'"
  shows "v_bucket (vrep (store cf')) = v_bucket (vrep (store cf))"
    and "v_immutable (vrep (store cf)) \<Longrightarrow> v_immutable (vrep (store cf'))"
    and "length (the_bucket (store cf)) \<le> length (mem (store cf') (v_bucket (vrep (store cf))))"
proof -
  have "v_bucket (vrep (store cf')) = v_bucket (vrep (store cf)) \<and>
    (v_immutable (vrep (store cf)) \<longrightarrow> v_immutable (vrep (store cf'))) \<and>
    length (the_bucket (store cf)) \<le> length (mem (store cf') (v_bucket (vrep (store cf))))"
  proof (cases call rule: perform_cases [where c = c and cf = cf])
    case (1 k)
    with assms show ?thesis by (auto simp: and_then_eq_Inr Insert_def push_back_def split: if_splits)
  next
    case 2
    with assms show ?thesis by (auto simp: MarkReadOnly_def)
  next
    case 3
    with assms show ?thesis by (auto simp: GetIterator_def new_Bucket_def split: if_splits)
  next
    case (4 n f)
    with assms have "on_iterator n f cf = Inr cf'" by simp
    from on_iterator_result [OF this] obtain it' w' where
      r: "f (iters cf ! n) (store cf) = Inr (it', w')"
      and cf': "cf' = \<lparr>store = w', iters = (iters cf)[n := it']\<rparr>" by blast
    from 4(1) r obtain it0 where d: "DoSort c (iters cf ! n) (store cf) = Inr (it0, w')"
      unfolding cursor_op_def by blast
    from DoSort_frame(5) [OF d, of "v_bucket (vrep (store cf))"]
    have "length (mem w' (v_bucket (vrep (store cf)))) = length (the_bucket (store cf))"
      by (metis size_mset)
    with DoSort_frame(1,2) [OF d] cf' show ?thesis by simp
  qed
  then show "v_bucket (vrep (store cf')) = v_bucket (vrep (store cf))"
    and "v_immutable (vrep (store cf)) \<Longrightarrow> v_immutable (vrep (store cf'))"
    and "length (the_bucket (store cf)) \<le> length (mem (store cf') (v_bucket (vrep (store cf))))"
    by blast+
qed

lemma run_frame:
  "run c calls cf = Inr cf' \<Longrightarrow>
   v_bucket (vrep (store cf')) = v_bucket (vrep (store cf)) \<and>
   (v_immutable (vrep (store cf)) \<longrightarrow> v_immutable (vrep (store cf'))) \<and>
   length (the_bucket (store cf)) \<le> length (the_bucket (store cf'))"
proof (induction calls arbitrary: cf)
  case Nil
  then show ?case by simp
next
  case (Cons x xs)
  from Cons.prems obtain cf1 where 1: "perform c x cf = Inr cf1" and 2: "run c xs cf1 = Inr cf'"
    by (auto simp: and_then_eq_Inr)
  note f = perform_frame [OF 1]
  note g = Cons.IH [OF 2]
  from f(1) g have "v_bucket (vrep (store cf')) = v_bucket (vrep (store cf))" by simp
  moreover from f(2) g have "v_immutable (vrep (store cf)) \<longrightarrow> v_immutable (vrep (store cf'))"
    by blast
  moreover have "length (the_bucket (store cf)) \<le> length (the_bucket (store cf'))"
  proof -
    from f(1,3) have "length (the_bucket (store cf)) \<le> length (the_bucket (store cf1))" by simp
    also from g have "\<dots> \<le> length (the_bucket (store cf'))" by blast
    finally show ?thesis .
  qed
  ultimately show ?case by blast
qed

subsection \<open>Clients and runs\<close>

lemma Insert_result:
  "Insert k w = Inr w' \<longleftrightarrow>
     k \<notin> set (the_bucket w) \<and> \<not> v_immutable (vrep w) \<and>
     w' = push_back k (v_bucket (vrep w)) w"
  by (auto simp: Insert_def Contains_def)

lemma Insert_all_result:
  "Insert_all ks w = Inr w' \<longleftrightarrow>
     distinct ks \<and> set ks \<inter> set (the_bucket w) = {} \<and> (ks \<noteq> [] \<longrightarrow> \<not> v_immutable (vrep w)) \<and>
     w' = w\<lparr>mem := (mem w)(v_bucket (vrep w) := the_bucket w @ ks),
            storage := (storage w)(v_bucket (vrep w) := storage w (v_bucket (vrep w)) \<or> ks \<noteq> [])\<rparr>"
proof (induction ks arbitrary: w)
  case Nil
  show ?case by auto
next
  case (Cons k ks)
  define w1 where "w1 = push_back k (v_bucket (vrep w)) w"
  have b1: "the_bucket w1 = the_bucket w @ [k]" and v1: "vrep w1 = vrep w"
    by (simp_all add: w1_def push_back_def)
  have u: "w1\<lparr>mem := (mem w1)(v_bucket (vrep w1) := the_bucket w @ k # ks),
              storage := (storage w1)(v_bucket (vrep w1) :=
                 storage w1 (v_bucket (vrep w1)) \<or> ks \<noteq> [])\<rparr> =
           w\<lparr>mem := (mem w)(v_bucket (vrep w) := the_bucket w @ k # ks),
             storage := (storage w)(v_bucket (vrep w) := True)\<rparr>"
    by (simp add: w1_def push_back_def)
  have "Insert_all (k # ks) w = Inr w' \<longleftrightarrow>
        k \<notin> set (the_bucket w) \<and> \<not> v_immutable (vrep w) \<and> Insert_all ks w1 = Inr w'"
    by (auto simp: and_then_eq_Inr Insert_result w1_def)
  also have "\<dots> \<longleftrightarrow>
        k \<notin> set (the_bucket w) \<and> \<not> v_immutable (vrep w) \<and>
        distinct ks \<and> set ks \<inter> set (the_bucket w1) = {} \<and>
        w' = w1\<lparr>mem := (mem w1)(v_bucket (vrep w1) := the_bucket w1 @ ks),
                 storage := (storage w1)(v_bucket (vrep w1) :=
                    storage w1 (v_bucket (vrep w1)) \<or> ks \<noteq> [])\<rparr>"
    unfolding Cons.IH [of w1] v1 by blast
  also have "\<dots> \<longleftrightarrow>
        distinct (k # ks) \<and> set (k # ks) \<inter> set (the_bucket w) = {} \<and>
        (k # ks \<noteq> [] \<longrightarrow> \<not> v_immutable (vrep w)) \<and>
        w' = w\<lparr>mem := (mem w)(v_bucket (vrep w) := the_bucket w @ k # ks),
               storage := (storage w)(v_bucket (vrep w) :=
                  storage w (v_bucket (vrep w)) \<or> k # ks \<noteq> [])\<rparr>"
    unfolding b1 append_assoc append_Cons append_Nil u by auto
  finally show ?case .
qed

lemma Compare_eta: "(\<lambda>a b. c a b < 0) = Compare c"
  by (simp add: fun_eq_iff Compare_def)

lemma collect_sorted:
  assumes s: "i_sorted it" and v: "i_vrep it = nullptr \<or> v_sorted (vrep w)"
  shows "i_cit it = Some i \<Longrightarrow> i \<le> length (bucket_of it w) \<Longrightarrow>
         collect c it w =
           Inr (drop i (bucket_of it w), it\<lparr>i_cit := Some (length (bucket_of it w))\<rparr>, w)"
  using s v
proof (induction "length (bucket_of it w) - i" arbitrary: i it)
  case 0
  then have e: "i = length (bucket_of it w)" by simp
  with 0 have "Valid c it w = Inr (False, it, w)" by (simp add: Valid_sorted at_end_Some)
  moreover from 0 e have "it\<lparr>i_cit := Some (length (bucket_of it w))\<rparr> = it" by simp
  ultimately show ?case using e by (subst collect.simps) simp
next
  case (Suc m)
  then have lt: "i < length (bucket_of it w)" by simp
  let ?it = "it\<lparr>i_cit := Some (i + 1)\<rparr>"
  from Suc lt have 1: "Valid c it w = Inr (True, it, w)" by (simp add: Valid_sorted at_end_Some)
  from Suc lt have 2: "key c it w = Inr (bucket_of it w ! i, it, w)" by (simp add: key_sorted)
  from Suc lt have 3: "Next c it w = Inr (?it, w)" by (simp add: Next_sorted)
  have "collect c ?it w =
      Inr (drop (i + 1) (bucket_of ?it w), ?it\<lparr>i_cit := Some (length (bucket_of ?it w))\<rparr>, w)"
    using Suc.hyps(2) Suc.prems lt by (intro Suc.hyps(1)) simp_all
  then have 4: "collect c (it\<lparr>i_cit := Some (Suc i)\<rparr>) w =
      Inr (drop (Suc i) (bucket_of it w), it\<lparr>i_cit := Some (length (bucket_of it w))\<rparr>, w)"
    by simp
  show ?case
    by (subst collect.simps) (simp add: 1 2 3 4 Cons_nth_drop_Suc lt)
qed

lemma scan_from_first:
  assumes d: "DoSort c it w = Inr (it0, w0)"
  shows "and_then (SeekToFirst c it w) (\<lambda>(it1, w1). collect c it1 w1) =
           Inr (bucket_of it0 w0, it0\<lparr>i_cit := Some (length (bucket_of it0 w0))\<rparr>, w0)"
proof -
  note r = DoSort_result [OF d]
  have "SeekToFirst c it w = Inr (it0\<lparr>i_cit := Some 0\<rparr>, w0)" by (simp add: SeekToFirst_def d)
  moreover have "collect c (it0\<lparr>i_cit := Some 0\<rparr>) w0 =
      Inr (drop 0 (bucket_of (it0\<lparr>i_cit := Some 0\<rparr>) w0),
           it0\<lparr>i_cit := Some 0\<rparr>\<lparr>i_cit := Some (length (bucket_of (it0\<lparr>i_cit := Some 0\<rparr>) w0))\<rparr>, w0)"
    using r by (intro collect_sorted) auto
  ultimately show ?thesis by simp
qed




lemma DoSort_succeeds:
  assumes "iter_ok c w it"
  shows "\<exists>it0 w0. DoSort c it w = Inr (it0, w0)"
proof (cases "i_sorted it")
  case True
  with assms have "i_vrep it = nullptr \<or> v_sorted (vrep w)"
    by (cases "i_vrep it") (simp_all add: iter_ok_def)
  with True show ?thesis by (simp add: DoSort_done)
next
  case False
  then show ?thesis
    by (cases "i_vrep it"; cases "v_sorted (vrep w)")
      (simp_all add: DoSort_private DoSort_shared_first DoSort_shared_later)
qed

lemma ok_sorted_ordered:
  assumes "world_ok c w" and "iter_ok c w it" and "i_sorted it"
  shows "ordered (Compare c) (bucket_of it w)"
  using assms by (cases "i_vrep it") (auto simp: iter_ok_def world_ok_def)

lemma reachable_DoSort:
  assumes swo: "strict_weak_order (Compare c)"
    and r: "run c calls (initial cnt) = Inr cf" and n: "n < length (iters cf)"
  obtains it0 w0 where "DoSort c (iters cf ! n) (store cf) = Inr (it0, w0)"
    and "i_sorted it0" and "i_vrep it0 = nullptr \<or> v_sorted (vrep w0)"
    and "ordered (Compare c) (bucket_of it0 w0)"
    and "mset (bucket_of it0 w0) = mset (bucket_of (iters cf ! n) (store cf))"
proof -
  from run_ok [OF swo config_ok_initial r] have ok: "config_ok c cf" .
  then have w: "world_ok c (store cf)" and i: "iter_ok c (store cf) (iters cf ! n)"
    using n by (simp_all add: config_ok_def)
  from DoSort_succeeds [OF i] obtain it0 w0
    where d: "DoSort c (iters cf ! n) (store cf) = Inr (it0, w0)" by blast
  note res = DoSort_result [OF d]
  note k = DoSort_keeps_ok(1,2) [OF swo w i d]
  from res have s: "i_sorted it0" and v: "i_vrep it0 = nullptr \<or> v_sorted (vrep w0)" by blast+
  from ok_sorted_ordered [OF k s] have o: "ordered (Compare c) (bucket_of it0 w0)" .
  from res have "i_bucket it0 = i_bucket (iters cf ! n)" by blast
  with DoSort_frame(5) [OF d, of "i_bucket (iters cf ! n)"]
  have m: "mset (bucket_of it0 w0) = mset (bucket_of (iters cf ! n) (store cf))" by simp
  from d s v o m show ?thesis by (rule that)
qed

lemma perform_sorted_stable:
  assumes swo: "strict_weak_order (Compare c)"
    and ok: "config_ok c cf" and s: "v_sorted (vrep (store cf))"
    and p: "perform c call cf = Inr cf'"
  shows "v_sorted (vrep (store cf')) \<and> the_bucket (store cf') = the_bucket (store cf)"
proof (cases call rule: perform_cases [where c = c and cf = cf])
  case (1 k)
  from ok s have "v_immutable (vrep (store cf))" by (simp add: config_ok_def world_ok_def)
  with p 1 show ?thesis by (simp add: and_then_eq_Inr Insert_result)
next
  case 2
  with p s show ?thesis by (auto simp: MarkReadOnly_def)
next
  case 3
  from ok s have "v_immutable (vrep (store cf))" by (simp add: config_ok_def world_ok_def)
  with p 3 s show ?thesis by (auto simp: GetIterator_def)
next
  case (4 n f)
  with p have "on_iterator n f cf = Inr cf'" by simp
  from on_iterator_ok(2) [OF swo 4(1) ok this s] s show ?thesis by simp
qed

lemma run_sorted_stable:
  assumes swo: "strict_weak_order (Compare c)"
  shows "config_ok c cf \<Longrightarrow> v_sorted (vrep (store cf)) \<Longrightarrow> run c calls cf = Inr cf' \<Longrightarrow>
         v_sorted (vrep (store cf')) \<and> the_bucket (store cf') = the_bucket (store cf)"
proof (induction calls arbitrary: cf)
  case Nil
  then show ?case by simp
next
  case (Cons x xs)
  from Cons.prems(3) obtain cf1 where 1: "perform c x cf = Inr cf1" and 2: "run c xs cf1 = Inr cf'"
    by (auto simp: and_then_eq_Inr)
  note a = perform_sorted_stable [OF swo Cons.prems(1,2) 1]
  note b = perform_ok [OF swo Cons.prems(1) 1]
  from Cons.IH [OF b _ 2] a show ?case by simp
qed

lemma ApproximateMemoryUsage_exact:
  assumes "length (the_bucket w) \<le> vector_max_size"
  shows "ApproximateMemoryUsage w =
           sizeof_shared_ptr + sizeof_Bucket + length (the_bucket w) * sizeof_value_type"
proof -
  from assms have "length (the_bucket w) * 8 \<le> 2 ^ 63"
    by (simp add: vector_max_size_def)
  then have "16 + 24 + length (the_bucket w) * 8 < (2 :: nat) ^ 64" by simp
  then show ?thesis
    by (simp add: ApproximateMemoryUsage_def sizeof_shared_ptr_def sizeof_Bucket_def
        sizeof_value_type_def)
qed










lemma perform_bucket_mset:
  assumes p: "perform c call cf = Inr cf'"
  shows "mset (the_bucket (store cf')) = mset (the_bucket (store cf)) + mset (inserted [call])"
proof -
  have keep: "mset (the_bucket (store cf')) = mset (the_bucket (store cf))"
    if o: "on_iterator n f cf = Inr cf'" and f: "cursor_op c f" for n f
  proof -
    from on_iterator_result [OF o] obtain it' w' where
      r: "f (iters cf ! n) (store cf) = Inr (it', w')"
      and cf': "cf' = \<lparr>store = w', iters = (iters cf)[n := it']\<rparr>" by blast
    from f r obtain it0 where d: "DoSort c (iters cf ! n) (store cf) = Inr (it0, w')"
      unfolding cursor_op_def by blast
    from DoSort_frame(1) [OF d] DoSort_frame(5) [OF d, of "v_bucket (vrep (store cf))"] cf'
    show ?thesis by simp
  qed
  show ?thesis
  proof (cases call)
    case (Insert_call k)
    with p show ?thesis by (auto simp: and_then_eq_Inr Insert_result)
  next
    case MarkReadOnly_call
    with p show ?thesis by (auto simp: MarkReadOnly_def)
  next
    case GetIterator_call
    with p show ?thesis by (auto simp: GetIterator_def new_Bucket_def split: if_splits)
  next
    case (Valid_call n)
    with p keep [of n "\<lambda>it w. and_then (Valid c it w) (\<lambda>(v, it', w'). Inr (it', w'))"] cursor_op_Valid [of c] show ?thesis by simp
  next
    case (key_call n)
    with p keep [of n "\<lambda>it w. and_then (key c it w) (\<lambda>(k, it', w'). Inr (it', w'))"] cursor_op_key [of c] show ?thesis by simp
  next
    case (Next_call n)
    with p keep [of n "Next c"] cursor_op_Next [of c] show ?thesis by simp
  next
    case (Prev_call n)
    with p keep [of n "Prev c"] cursor_op_Prev [of c] show ?thesis by simp
  next
    case (Seek_call n t)
    with p keep [of n "Seek c t"] cursor_op_Seek [of c t] show ?thesis by simp
  next
    case (SeekToFirst_call n)
    with p keep [of n "SeekToFirst c"] cursor_op_SeekToFirst [of c] show ?thesis by simp
  next
    case (SeekToLast_call n)
    with p keep [of n "SeekToLast c"] cursor_op_SeekToLast [of c] show ?thesis by simp
  qed
qed

lemma inserted_Cons: "mset (inserted (x # xs)) = mset (inserted [x]) + mset (inserted xs)"
  by (cases x) simp_all

lemma run_bucket_mset:
  "run c calls cf = Inr cf' \<Longrightarrow>
   mset (the_bucket (store cf')) = mset (the_bucket (store cf)) + mset (inserted calls)"
proof (induction calls arbitrary: cf)
  case Nil
  then show ?case by simp
next
  case (Cons x xs)
  from Cons.prems obtain cf1 where 1: "perform c x cf = Inr cf1" and 2: "run c xs cf1 = Inr cf'"
    by (auto simp: and_then_eq_Inr)
  from Cons.IH [OF 2] perform_bucket_mset [OF 1] inserted_Cons [of x xs]
  show ?case by (simp add: ac_simps)
qed

lemma reachable_bucket_is_inserted:
  assumes "run c calls (initial cnt) = Inr cf"
  shows "mset (the_bucket (store cf)) = mset (inserted calls)"
  using run_bucket_mset [OF assms] by (simp add: initial_def VectorRep_new_eq)

lemma scan_of_reachable_shared_iterator:
  assumes swo: "strict_weak_order (Compare c)"
    and r: "run c calls (initial cnt) = Inr cf"
    and n: "n < length (iters cf)"
    and sh: "i_vrep (iters cf ! n) = this_vrep"
    and du: "distinct_under (Compare c) (inserted calls)"
  shows "v_immutable (vrep (store cf)) \<and>
         bucket_of (iters cf ! n) (store cf) = the_bucket (store cf) \<and>
         (\<exists>ks it' w'.
            and_then (SeekToFirst c (iters cf ! n) (store cf)) (\<lambda>(it1, w1). collect c it1 w1) =
              Inr (ks, it', w') \<and>
            mset ks = mset (inserted calls) \<and> sorted_wrt (Compare c) ks \<and>
            the_bucket w' = ks \<and> i_cit it' = Some (length ks))"
proof -
  let ?it = "iters cf ! n" and ?w = "store cf"
  from run_ok [OF swo config_ok_initial r] n have i: "iter_ok c ?w ?it"
    by (simp add: config_ok_def)
  with sh have b: "i_bucket ?it = v_bucket (vrep ?w)" and f: "v_immutable (vrep ?w)"
    by (simp_all add: iter_ok_def)
  from reachable_DoSort [OF swo r n] obtain it0 w0
    where d: "DoSort c ?it ?w = Inr (it0, w0)"
      and o: "ordered (Compare c) (bucket_of it0 w0)"
      and m: "mset (bucket_of it0 w0) = mset (bucket_of ?it ?w)" by blast
  define ks where "ks = bucket_of it0 w0"
  from m b reachable_bucket_is_inserted [OF r] have 1: "mset ks = mset (inserted calls)"
    by (simp add: ks_def)
  from distinct_under_mset [OF 1 [symmetric] du] o have 2: "sorted_wrt (Compare c) ks"
    unfolding ks_def by (rule ascending_of_ordered)
  note res = DoSort_result [OF d]
  from res b DoSort_frame(1) [OF d] have 3: "the_bucket w0 = ks"
    by (simp add: ks_def)
  from scan_from_first [OF d] have 4:
    "and_then (SeekToFirst c ?it ?w) (\<lambda>(it1, w1). collect c it1 w1) =
       Inr (ks, it0\<lparr>i_cit := Some (length ks)\<rparr>, w0)" by (simp add: ks_def)
  from f b 1 2 3 4 show ?thesis by auto
qed

lemma run_Insert_calls:
  "run c (map Insert_call ks @ rest) cf =
     and_then (Insert_all ks (store cf)) (\<lambda>w. run c rest (cf\<lparr>store := w\<rparr>))"
proof (induction ks arbitrary: cf)
  case Nil
  then show ?case by simp
next
  case (Cons k ks)
  show ?case
  proof (cases "Insert k (store cf)")
    case (Inl e)
    then show ?thesis by simp
  next
    case (Inr w)
    then show ?thesis by (simp add: Cons.IH)
  qed
qed

lemma inserted_Insert_calls: "inserted (map Insert_call ks @ rest) = ks @ inserted rest"
  by (induction ks) simp_all

lemma run_scenario:
  assumes "distinct es"
  shows "run c (map Insert_call es @ [MarkReadOnly_call, GetIterator_call]) (initial cnt) =
           Inr \<lparr>store = (VectorRep_new cnt)\<lparr>mem := (mem (VectorRep_new cnt))(0 := es),
                          storage := (storage (VectorRep_new cnt))(0 := 0 < cnt \<or> es \<noteq> []),
                          vrep := \<lparr>v_bucket = 0, v_immutable = True, v_sorted = False\<rparr>\<rparr>,
                iters = [Iterator_new this_vrep 0]\<rparr>"
proof -
  from assms have "Insert_all es (VectorRep_new cnt) =
      Inr ((VectorRep_new cnt :: 'a world)\<lparr>mem := (mem (VectorRep_new cnt))(0 := es),
             storage := (storage (VectorRep_new cnt))(0 := 0 < cnt \<or> es \<noteq> [])\<rparr>)"
    by (simp add: Insert_all_result VectorRep_new_eq)
  then show ?thesis
    by (simp add: run_Insert_calls initial_def)
      (simp add: VectorRep_new_eq MarkReadOnly_def GetIterator_def)
qed

subsection \<open>The examples\<close>

lemma Compare_demo: "Compare demo_compare a b \<longleftrightarrow> a mod 10 < b mod 10"
  by (simp add: Compare_def demo_compare_def)

lemma swo_demo: "strict_weak_order (Compare demo_compare)"
  by (auto simp: strict_weak_order_def Compare_demo)

lemmas demo_eval =
  initial_def VectorRep_new_eq on_iterator_def Insert_def Contains_def MarkReadOnly_def
  GetIterator_def new_Bucket_def Iterator_new_def SeekToFirst_def SeekToLast_def Seek_def Next_def
  Prev_def key_def Valid_def DoSort_def sort_and_rewind_def Compare_def demo_compare_def
  equal_range.simps lower_bound.simps upper_bound.simps Let_def demo_world_def
  push_back_def reserve_def at_begin_def at_end_def

lemma run_demo: "run demo_compare demo_calls (initial 0) = Inr demo_frozen"
  by (simp add: demo_calls_def demo_frozen_def demo_eval fun_eq_iff)

lemma distinct_under_demo: "distinct_under (Compare demo_compare) [15, 23, 34, 41, 52]"
  by (simp add: distinct_under_def Compare_demo)

lemma inserted_demo_calls: "inserted demo_calls = [15, 23, 34, 41, 52]"
  by (simp add: demo_calls_def)


lemma run_demo_empty:
  "run demo_compare [MarkReadOnly_call, GetIterator_call] (initial 0) = Inr demo_empty"
  by (simp add: demo_empty_def demo_eval fun_eq_iff)

lemma run_demo_null_cursor:
  "and_then
     (run demo_compare [MarkReadOnly_call, GetIterator_call, GetIterator_call, Valid_call 0]
        (initial cnt))
     (\<lambda>cf. and_then (Valid demo_compare (iters cf ! 1) (store cf)) (\<lambda>(v, it, w). Inr v)) =
   Inr (0 < cnt)"
  by (simp add: demo_eval)

section \<open>The claims\<close>

text \<open>
  Claim C1. Take any configuration reached from a new \<^verbatim>\<open>VectorRep\<close> by a run of calls whose
  inserted entries are pairwise distinct under the comparator, and any of its iterators that
  was obtained after \<^verbatim>\<open>MarkReadOnly\<close> (it shares the bucket of the \<^verbatim>\<open>VectorRep\<close>), whatever
  this iterator and the others have done before. Then \<^verbatim>\<open>SeekToFirst\<close> followed by the scan
  (\<^verbatim>\<open>key\<close> and \<^verbatim>\<open>Next\<close> until \<^verbatim>\<open>Valid\<close> is false) succeeds and yields exactly the inserted
  entries, in strictly ascending order of the comparator, and ends with the cursor at the
  end. In particular the run that inserts the entries and then calls \<^verbatim>\<open>MarkReadOnly\<close> and
  \<^verbatim>\<open>GetIterator\<close> succeeds, and its iterator scans the inserted entries in ascending order.
\<close>

theorem scan_of_frozen_store_is_sorted:
  assumes swo: "strict_weak_order (Compare c)"
  shows "(run c calls (initial cnt) = Inr cf \<longrightarrow> n < length (iters cf) \<longrightarrow>
          i_vrep (iters cf ! n) = this_vrep \<longrightarrow> distinct_under (Compare c) (inserted calls) \<longrightarrow>
            v_immutable (vrep (store cf)) \<and>
            bucket_of (iters cf ! n) (store cf) = the_bucket (store cf) \<and>
            (\<exists>ks it' w'.
               and_then (SeekToFirst c (iters cf ! n) (store cf)) (\<lambda>(it1, w1). collect c it1 w1) =
                 Inr (ks, it', w') \<and>
               mset ks = mset (inserted calls) \<and> sorted_wrt (Compare c) ks \<and>
               the_bucket w' = ks \<and> i_cit it' = Some (length ks))) \<and>
         (distinct_under (Compare c) es \<longrightarrow>
            (\<exists>cf0 ks it' w'.
               run c (map Insert_call es @ [MarkReadOnly_call, GetIterator_call]) (initial cnt) =
                 Inr cf0 \<and>
               length (iters cf0) = 1 \<and> i_vrep (iters cf0 ! 0) = this_vrep \<and>
               and_then (SeekToFirst c (iters cf0 ! 0) (store cf0)) (\<lambda>(it1, w1). collect c it1 w1) =
                 Inr (ks, it', w') \<and>
               mset ks = mset es \<and> sorted_wrt (Compare c) ks))"
proof (intro conjI impI)
  assume "run c calls (initial cnt) = Inr cf" "n < length (iters cf)"
    "i_vrep (iters cf ! n) = this_vrep" "distinct_under (Compare c) (inserted calls)"
  note g = scan_of_reachable_shared_iterator [OF swo this]
  from g show "v_immutable (vrep (store cf))" by blast
  from g show "bucket_of (iters cf ! n) (store cf) = the_bucket (store cf)" by blast
  from g show "\<exists>ks it' w'.
       and_then (SeekToFirst c (iters cf ! n) (store cf)) (\<lambda>(it1, w1). collect c it1 w1) =
         Inr (ks, it', w') \<and>
       mset ks = mset (inserted calls) \<and> sorted_wrt (Compare c) ks \<and>
       the_bucket w' = ks \<and> i_cit it' = Some (length ks)" by blast
next
  assume du: "distinct_under (Compare c) es"
  let ?calls = "map Insert_call es @ [MarkReadOnly_call, GetIterator_call]"
  define cf0 where "cf0 =
     \<lparr>store = (VectorRep_new cnt :: 'a world)\<lparr>mem := (mem (VectorRep_new cnt))(0 := es),
               storage := (storage (VectorRep_new cnt))(0 := 0 < cnt \<or> es \<noteq> []),
               vrep := \<lparr>v_bucket = 0, v_immutable = True, v_sorted = False\<rparr>\<rparr>,
      iters = [Iterator_new this_vrep 0]\<rparr>"
  from du have "distinct es" by (simp add: distinct_under_def)
  from run_scenario [OF this] have r: "run c ?calls (initial cnt) = Inr cf0"
    by (simp add: cf0_def)
  have i: "inserted ?calls = es" by (simp add: inserted_Insert_calls)
  have n: "0 < length (iters cf0)" "length (iters cf0) = 1" "i_vrep (iters cf0 ! 0) = this_vrep"
    by (simp_all add: cf0_def Iterator_new_def)
  from scan_of_reachable_shared_iterator [OF swo r n(1,3)] du i n r
  show "\<exists>cf0 ks it' w'.
       run c (map Insert_call es @ [MarkReadOnly_call, GetIterator_call]) (initial cnt) = Inr cf0 \<and>
       length (iters cf0) = 1 \<and> i_vrep (iters cf0 ! 0) = this_vrep \<and>
       and_then (SeekToFirst c (iters cf0 ! 0) (store cf0)) (\<lambda>(it1, w1). collect c it1 w1) =
         Inr (ks, it', w') \<and>
       mset ks = mset es \<and> sorted_wrt (Compare c) ks"
    by (metis (no_types, lifting))
qed

theorem scan_of_frozen_store_is_sorted_witness:
  "strict_weak_order (Compare demo_compare) \<and>
   run demo_compare demo_calls (initial 0) = Inr demo_frozen \<and>
   1 < length (iters demo_frozen) \<and>
   i_vrep (iters demo_frozen ! 1) = this_vrep \<and>
   i_cit (iters demo_frozen ! 1) = None \<and>
   distinct_under (Compare demo_compare) (inserted demo_calls) \<and>
   v_immutable (vrep (store demo_frozen)) \<and>
   (\<exists>ks it' w'.
      and_then (SeekToFirst demo_compare (iters demo_frozen ! 1) (store demo_frozen))
        (\<lambda>(it1, w1). collect demo_compare it1 w1) = Inr (ks, it', w') \<and>
      mset ks = mset (inserted demo_calls) \<and> sorted_wrt (Compare demo_compare) ks \<and>
      the_bucket w' = ks \<and> i_cit it' = Some (length ks)) \<and>
   and_then (SeekToFirst demo_compare (iters demo_frozen ! 1) (store demo_frozen))
     (\<lambda>(it1, w1). collect demo_compare it1 w1) =
     Inr ([41, 52, 23, 34, 15],
          \<lparr>i_vrep = this_vrep, i_bucket = 0, i_cit = Some 5, i_sorted = True\<rparr>,
          store demo_frozen) \<and>
   distinct_under (Compare demo_compare) [15, 23, 34, 41, 52] \<and>
   (\<exists>cf0 ks it' w'.
      run demo_compare
        (map Insert_call [15, 23, 34, 41, 52] @ [MarkReadOnly_call, GetIterator_call]) (initial 0) =
        Inr cf0 \<and>
      length (iters cf0) = 1 \<and> i_vrep (iters cf0 ! 0) = this_vrep \<and>
      and_then (SeekToFirst demo_compare (iters cf0 ! 0) (store cf0))
        (\<lambda>(it1, w1). collect demo_compare it1 w1) = Inr (ks, it', w') \<and>
      mset ks = mset [15, 23, 34, 41, 52] \<and> sorted_wrt (Compare demo_compare) ks)"
proof -
  have n: "1 < length (iters demo_frozen)" "i_vrep (iters demo_frozen ! 1) = this_vrep"
    "i_cit (iters demo_frozen ! 1) = None"
    by (simp_all add: demo_frozen_def)
  have du: "distinct_under (Compare demo_compare) (inserted demo_calls)"
    unfolding inserted_demo_calls by (rule distinct_under_demo)
  note t = scan_of_frozen_store_is_sorted [OF swo_demo, of demo_calls 0 demo_frozen 1
      "[15, 23, 34, 41, 52]"]
  from t run_demo n du have 1: "v_immutable (vrep (store demo_frozen))"
    and 2: "\<exists>ks it' w'.
      and_then (SeekToFirst demo_compare (iters demo_frozen ! 1) (store demo_frozen))
        (\<lambda>(it1, w1). collect demo_compare it1 w1) = Inr (ks, it', w') \<and>
      mset ks = mset (inserted demo_calls) \<and> sorted_wrt (Compare demo_compare) ks \<and>
      the_bucket w' = ks \<and> i_cit it' = Some (length ks)"
    by blast+
  from t distinct_under_demo have 3: "\<exists>cf0 ks it' w'.
      run demo_compare
        (map Insert_call [15, 23, 34, 41, 52] @ [MarkReadOnly_call, GetIterator_call]) (initial 0) =
        Inr cf0 \<and>
      length (iters cf0) = 1 \<and> i_vrep (iters cf0 ! 0) = this_vrep \<and>
      and_then (SeekToFirst demo_compare (iters cf0 ! 0) (store cf0))
        (\<lambda>(it1, w1). collect demo_compare it1 w1) = Inr (ks, it', w') \<and>
      mset ks = mset [15, 23, 34, 41, 52] \<and> sorted_wrt (Compare demo_compare) ks"
    by blast
  have d: "DoSort demo_compare (iters demo_frozen ! 1) (store demo_frozen) =
      Inr (\<lparr>i_vrep = this_vrep, i_bucket = 0, i_cit = None, i_sorted = True\<rparr>, store demo_frozen)"
    by (simp add: demo_frozen_def demo_world_def DoSort_def)
  have 4: "and_then (SeekToFirst demo_compare (iters demo_frozen ! 1) (store demo_frozen))
     (\<lambda>(it1, w1). collect demo_compare it1 w1) =
     Inr ([41, 52, 23, 34, 15],
          \<lparr>i_vrep = this_vrep, i_bucket = 0, i_cit = Some 5, i_sorted = True\<rparr>,
          store demo_frozen)"
    using scan_from_first [OF d] by (simp add: demo_frozen_def demo_world_def)
  from swo_demo run_demo n du 1 2 4 distinct_under_demo 3 show ?thesis by blast
qed

text \<open>
  Claim C2. For every iterator of a configuration reached from a new \<^verbatim>\<open>VectorRep\<close> and every
  target, \<^verbatim>\<open>Seek(target)\<close> succeeds and leaves the cursor at the position \<open>p\<close> of the (now
  ordered) bucket such that every entry before \<open>p\<close> is ordered before the target and the
  entry at \<open>p\<close>, if there is one, is not. \<^verbatim>\<open>Valid\<close> is then true exactly when \<open>p\<close> is a
  position of the bucket; when every entry is ordered before the target the cursor is
  \<^verbatim>\<open>end()\<close> and \<^verbatim>\<open>Valid\<close> is false.
\<close>

theorem Seek_finds_first_not_before:
  assumes swo: "strict_weak_order (Compare c)"
    and r: "run c calls (initial cnt) = Inr cf" and n: "n < length (iters cf)"
  shows "\<exists>it' w' p xs.
           Seek c target (iters cf ! n) (store cf) = Inr (it', w') \<and>
           i_cit it' = Some p \<and> bucket_of it' w' = xs \<and>
           ordered (Compare c) xs \<and>
           mset xs = mset (bucket_of (iters cf ! n) (store cf)) \<and>
           p \<le> length xs \<and>
           (\<forall>i<p. Compare c (xs ! i) target) \<and>
           (p < length xs \<longrightarrow> \<not> Compare c (xs ! p) target) \<and>
           Valid c it' w' = Inr (p < length xs, it', w') \<and>
           ((\<forall>x\<in>set xs. Compare c x target) \<longrightarrow>
              p = length xs \<and> Valid c it' w' = Inr (False, it', w'))"
proof -
  let ?it = "iters cf ! n" and ?w = "store cf"
  let ?P = "\<lambda>x. Compare c x target"
  from reachable_DoSort [OF swo r n] obtain it0 w0
    where d: "DoSort c ?it ?w = Inr (it0, w0)"
      and s: "i_sorted it0" and v: "i_vrep it0 = nullptr \<or> v_sorted (vrep w0)"
      and o: "ordered (Compare c) (bucket_of it0 w0)"
      and m: "mset (bucket_of it0 w0) = mset (bucket_of ?it ?w)" by blast
  define xs where "xs = bucket_of it0 w0"
  define p where "p = length (takeWhile ?P xs)"
  define it' where "it' = it0\<lparr>i_cit := Some p\<rparr>"
  have "fst (equal_range (\<lambda>a b. c a b < 0) xs target) = p"
    unfolding Compare_eta p_def using equal_range_first [OF swo o] by (simp add: xs_def)
  then have 1: "Seek c target ?it ?w = Inr (it', w0)"
    by (simp add: Seek_def d it'_def xs_def)
  have q: "i_sorted it'" "i_vrep it' = nullptr \<or> v_sorted (vrep w0)" "bucket_of it' w0 = xs"
    "i_cit it' = Some p"
    using s v by (simp_all add: it'_def xs_def)
  have le: "p \<le> length xs" unfolding p_def by (rule length_takeWhile_le)
  have before: "Compare c (xs ! i) target" if "i < p" for i
  proof -
    from that have "takeWhile ?P xs ! i = xs ! i" unfolding p_def by (rule takeWhile_nth)
    moreover from that have "takeWhile ?P xs ! i \<in> set (takeWhile ?P xs)" by (simp add: p_def)
    ultimately show ?thesis by (metis set_takeWhileD)
  qed
  have at: "\<not> Compare c (xs ! p) target" if "p < length xs"
    using that unfolding p_def by (rule nth_length_takeWhile)
  have val: "Valid c it' w0 = Inr (p < length xs, it', w0)"
    using Valid_sorted [OF q(1,2), of c] q(3,4) le by (auto simp: at_end_Some)
  have all: "p = length xs" if "\<forall>x\<in>set xs. Compare c x target"
    using that at le by (metis nth_mem le_neq_implies_less)
  from 1 q le before at val all o m show ?thesis
    unfolding xs_def [symmetric] by (intro exI [of _ it'] exI [of _ w0] exI [of _ p] exI [of _ xs]) auto
qed

theorem Seek_finds_first_not_before_witness:
  "strict_weak_order (Compare demo_compare) \<and>
   run demo_compare demo_calls (initial 0) = Inr demo_frozen \<and>
   1 < length (iters demo_frozen) \<and>
   (\<exists>it' w' p xs.
      Seek demo_compare 33 (iters demo_frozen ! 1) (store demo_frozen) = Inr (it', w') \<and>
      i_cit it' = Some p \<and> bucket_of it' w' = xs \<and>
      ordered (Compare demo_compare) xs \<and>
      mset xs = mset (bucket_of (iters demo_frozen ! 1) (store demo_frozen)) \<and>
      p \<le> length xs \<and>
      (\<forall>i<p. Compare demo_compare (xs ! i) 33) \<and>
      (p < length xs \<longrightarrow> \<not> Compare demo_compare (xs ! p) 33) \<and>
      Valid demo_compare it' w' = Inr (p < length xs, it', w') \<and>
      ((\<forall>x\<in>set xs. Compare demo_compare x 33) \<longrightarrow>
         p = length xs \<and> Valid demo_compare it' w' = Inr (False, it', w'))) \<and>
   Seek demo_compare 33 (iters demo_frozen ! 1) (store demo_frozen) =
     Inr (\<lparr>i_vrep = this_vrep, i_bucket = 0, i_cit = Some 2, i_sorted = True\<rparr>, store demo_frozen) \<and>
   Seek demo_compare 66 (iters demo_frozen ! 1) (store demo_frozen) =
     Inr (\<lparr>i_vrep = this_vrep, i_bucket = 0, i_cit = Some 5, i_sorted = True\<rparr>, store demo_frozen)"
proof -
  have n: "1 < length (iters demo_frozen)" by (simp add: demo_frozen_def)
  have a: "Seek demo_compare 33 (iters demo_frozen ! 1) (store demo_frozen) =
     Inr (\<lparr>i_vrep = this_vrep, i_bucket = 0, i_cit = Some 2, i_sorted = True\<rparr>, store demo_frozen)"
    by (simp add: demo_frozen_def demo_eval)
  have b: "Seek demo_compare 66 (iters demo_frozen ! 1) (store demo_frozen) =
     Inr (\<lparr>i_vrep = this_vrep, i_bucket = 0, i_cit = Some 5, i_sorted = True\<rparr>, store demo_frozen)"
    by (simp add: demo_frozen_def demo_eval)
  from Seek_finds_first_not_before [OF swo_demo run_demo n, of 33] swo_demo run_demo n a b
  show ?thesis by blast
qed

text \<open>
  Claim C3. In every configuration reached from a new \<^verbatim>\<open>VectorRep\<close> by calls that succeed
  (an \<^verbatim>\<open>Insert\<close> after \<^verbatim>\<open>MarkReadOnly\<close> fails its assertion, so no such run contains one):
  when \<^verbatim>\<open>sorted_\<close> is set the shared bucket is ordered by the comparator; every further run of
  calls leaves the flag set and the bucket unchanged, hence ordered; and \<^verbatim>\<open>DoSort\<close> on an
  iterator that shares the bucket leaves the whole heap and the \<^verbatim>\<open>VectorRep\<close> as they are.
\<close>

theorem sorted_flag_means_ordered_forever:
  assumes swo: "strict_weak_order (Compare c)"
    and r: "run c calls (initial cnt) = Inr cf"
    and s: "v_sorted (vrep (store cf))"
  shows "ordered (Compare c) (the_bucket (store cf)) \<and>
         (\<forall>calls' cf'. run c calls' cf = Inr cf' \<longrightarrow>
            v_sorted (vrep (store cf')) \<and>
            the_bucket (store cf') = the_bucket (store cf) \<and>
            ordered (Compare c) (the_bucket (store cf'))) \<and>
         (\<forall>n<length (iters cf). i_vrep (iters cf ! n) = this_vrep \<longrightarrow>
            (\<exists>it'. DoSort c (iters cf ! n) (store cf) = Inr (it', store cf)))"
proof (intro conjI allI impI)
  from run_ok [OF swo config_ok_initial r] have ok: "config_ok c cf" .
  with s show o: "ordered (Compare c) (the_bucket (store cf))"
    by (simp add: config_ok_def world_ok_def)
  {
    fix calls' cf' assume r': "run c calls' cf = Inr cf'"
    note st = run_sorted_stable [OF swo ok s r']
    from st show "v_sorted (vrep (store cf'))" by simp
    from st show "the_bucket (store cf') = the_bucket (store cf)" by simp
    with o show "ordered (Compare c) (the_bucket (store cf'))" by simp
  }
  {
    fix n assume n: "n < length (iters cf)" and sh: "i_vrep (iters cf ! n) = this_vrep"
    from ok n have w: "world_ok c (store cf)" and i: "iter_ok c (store cf) (iters cf ! n)"
      by (simp_all add: config_ok_def)
    from DoSort_succeeds [OF i] obtain it0 w0
      where d: "DoSort c (iters cf ! n) (store cf) = Inr (it0, w0)" by blast
    from DoSort_keeps_ok(4) [OF swo w i d s sh] d
    show "\<exists>it'. DoSort c (iters cf ! n) (store cf) = Inr (it', store cf)" by auto
  }
qed

theorem sorted_flag_means_ordered_forever_witness:
  "strict_weak_order (Compare demo_compare) \<and>
   run demo_compare demo_calls (initial 0) = Inr demo_frozen \<and>
   v_sorted (vrep (store demo_frozen)) \<and>
   ordered (Compare demo_compare) (the_bucket (store demo_frozen)) \<and>
   run demo_compare [Seek_call 1 33, Prev_call 1] demo_frozen =
     Inr (demo_frozen\<lparr>iters :=
       [\<lparr>i_vrep = this_vrep, i_bucket = 0, i_cit = Some 0, i_sorted = True\<rparr>,
        \<lparr>i_vrep = this_vrep, i_bucket = 0, i_cit = Some 1, i_sorted = True\<rparr>]\<rparr>) \<and>
   the_bucket (store (demo_frozen\<lparr>iters :=
       [\<lparr>i_vrep = this_vrep, i_bucket = 0, i_cit = Some 0, i_sorted = True\<rparr>,
        \<lparr>i_vrep = this_vrep, i_bucket = 0, i_cit = Some 1, i_sorted = True\<rparr>]\<rparr>)) =
     the_bucket (store demo_frozen) \<and>
   1 < length (iters demo_frozen) \<and> i_vrep (iters demo_frozen ! 1) = this_vrep \<and>
   (\<exists>it'. DoSort demo_compare (iters demo_frozen ! 1) (store demo_frozen) =
            Inr (it', store demo_frozen))"
proof -
  have s: "v_sorted (vrep (store demo_frozen))" by (simp add: demo_frozen_def demo_world_def)
  have n: "1 < length (iters demo_frozen)" "i_vrep (iters demo_frozen ! 1) = this_vrep"
    by (simp_all add: demo_frozen_def)
  have r: "run demo_compare [Seek_call 1 33, Prev_call 1] demo_frozen =
     Inr (demo_frozen\<lparr>iters :=
       [\<lparr>i_vrep = this_vrep, i_bucket = 0, i_cit = Some 0, i_sorted = True\<rparr>,
        \<lparr>i_vrep = this_vrep, i_bucket = 0, i_cit = Some 1, i_sorted = True\<rparr>]\<rparr>)"
    by (simp add: demo_frozen_def demo_eval)
  note t = sorted_flag_means_ordered_forever [OF swo_demo run_demo s]
  from t have 1: "ordered (Compare demo_compare) (the_bucket (store demo_frozen))" by blast
  from t r have 2: "the_bucket (store (demo_frozen\<lparr>iters :=
       [\<lparr>i_vrep = this_vrep, i_bucket = 0, i_cit = Some 0, i_sorted = True\<rparr>,
        \<lparr>i_vrep = this_vrep, i_bucket = 0, i_cit = Some 1, i_sorted = True\<rparr>]\<rparr>)) =
     the_bucket (store demo_frozen)" by blast
  from t n have 3: "\<exists>it'. DoSort demo_compare (iters demo_frozen ! 1) (store demo_frozen) =
            Inr (it', store demo_frozen)" by blast
  from swo_demo run_demo s 1 r 2 n 3 show ?thesis by blast
qed



text \<open>
  Claim C5. On a valid iterator (\<^verbatim>\<open>Valid\<close> returns true, after its lazy sort) whose cursor is
  at the first position, \<^verbatim>\<open>Prev\<close> sets the cursor to \<^verbatim>\<open>end()\<close>, and \<^verbatim>\<open>Valid\<close> is false
  afterwards; at a later position \<open>i\<close> of the bucket, \<^verbatim>\<open>Prev\<close> moves the cursor to \<open>i - 1\<close>.
\<close>

theorem Prev_at_first_invalidates:
  assumes v: "Valid c it w = Inr (True, it1, w1)"
  shows "(i_cit it1 = Some 0 \<longrightarrow>
            Prev c it w = Inr (it1\<lparr>i_cit := Some (length (bucket_of it1 w1))\<rparr>, w1) \<and>
            Valid c (it1\<lparr>i_cit := Some (length (bucket_of it1 w1))\<rparr>) w1 =
              Inr (False, it1\<lparr>i_cit := Some (length (bucket_of it1 w1))\<rparr>, w1)) \<and>
         (\<forall>i. i_cit it1 = Some i \<longrightarrow> 0 < i \<longrightarrow> i < length (bucket_of it1 w1) \<longrightarrow>
            Prev c it w = Inr (it1\<lparr>i_cit := Some (i - 1)\<rparr>, w1))"
proof (intro conjI impI allI)
  from Valid_result [OF v] have d: "DoSort c it w = Inr (it1, w1)" by simp
  note res = DoSort_result [OF d]
  let ?end = "it1\<lparr>i_cit := Some (length (bucket_of it1 w1))\<rparr>"
  {
    assume z: "i_cit it1 = Some 0"
    with v show "Prev c it w = Inr (?end, w1)" by (simp add: Prev_def at_begin_Some)
    from res have "i_sorted ?end" "i_vrep ?end = nullptr \<or> v_sorted (vrep w1)" by auto
    from Valid_sorted [OF this, of c] show "Valid c ?end w1 = Inr (False, ?end, w1)" by simp
  }
  {
    fix i assume "i_cit it1 = Some i" "0 < i" "i < length (bucket_of it1 w1)"
    with v show "Prev c it w = Inr (it1\<lparr>i_cit := Some (i - 1)\<rparr>, w1)"
      by (simp add: Prev_def at_begin_Some)
  }
qed

theorem Prev_at_first_invalidates_witness:
  "Valid demo_compare \<lparr>i_vrep = this_vrep, i_bucket = 0, i_cit = Some 0, i_sorted = True\<rparr>
     (store demo_frozen) =
     Inr (True, \<lparr>i_vrep = this_vrep, i_bucket = 0, i_cit = Some 0, i_sorted = True\<rparr>,
          store demo_frozen) \<and>
   Prev demo_compare \<lparr>i_vrep = this_vrep, i_bucket = 0, i_cit = Some 0, i_sorted = True\<rparr>
     (store demo_frozen) =
     Inr (\<lparr>i_vrep = this_vrep, i_bucket = 0, i_cit = Some 5, i_sorted = True\<rparr>, store demo_frozen) \<and>
   Valid demo_compare \<lparr>i_vrep = this_vrep, i_bucket = 0, i_cit = Some 5, i_sorted = True\<rparr>
     (store demo_frozen) =
     Inr (False, \<lparr>i_vrep = this_vrep, i_bucket = 0, i_cit = Some 5, i_sorted = True\<rparr>,
          store demo_frozen) \<and>
   Valid demo_compare \<lparr>i_vrep = this_vrep, i_bucket = 0, i_cit = Some 3, i_sorted = True\<rparr>
     (store demo_frozen) =
     Inr (True, \<lparr>i_vrep = this_vrep, i_bucket = 0, i_cit = Some 3, i_sorted = True\<rparr>,
          store demo_frozen) \<and>
   Prev demo_compare \<lparr>i_vrep = this_vrep, i_bucket = 0, i_cit = Some 3, i_sorted = True\<rparr>
     (store demo_frozen) =
     Inr (\<lparr>i_vrep = this_vrep, i_bucket = 0, i_cit = Some 2, i_sorted = True\<rparr>, store demo_frozen)"
proof -
  let ?a = "\<lparr>i_vrep = this_vrep, i_bucket = 0, i_cit = Some 0, i_sorted = True\<rparr>"
  let ?b = "\<lparr>i_vrep = this_vrep, i_bucket = 0, i_cit = Some 3, i_sorted = True\<rparr>"
  have va: "Valid demo_compare ?a (store demo_frozen) = Inr (True, ?a, store demo_frozen)"
    by (simp add: demo_frozen_def demo_eval)
  have vb: "Valid demo_compare ?b (store demo_frozen) = Inr (True, ?b, store demo_frozen)"
    by (simp add: demo_frozen_def demo_eval)
  have len: "length (bucket_of ?a (store demo_frozen)) = 5" "length (bucket_of ?b (store demo_frozen)) = 5"
    by (simp_all add: demo_frozen_def demo_world_def)
  from Prev_at_first_invalidates [OF va] len
  have 1: "Prev demo_compare ?a (store demo_frozen) =
      Inr (\<lparr>i_vrep = this_vrep, i_bucket = 0, i_cit = Some 5, i_sorted = True\<rparr>, store demo_frozen)"
    and 2: "Valid demo_compare \<lparr>i_vrep = this_vrep, i_bucket = 0, i_cit = Some 5, i_sorted = True\<rparr>
        (store demo_frozen) =
      Inr (False, \<lparr>i_vrep = this_vrep, i_bucket = 0, i_cit = Some 5, i_sorted = True\<rparr>,
           store demo_frozen)"
    by simp_all
  from Prev_at_first_invalidates [OF vb] len
  have 3: "Prev demo_compare ?b (store demo_frozen) =
      Inr (\<lparr>i_vrep = this_vrep, i_bucket = 0, i_cit = Some 2, i_sorted = True\<rparr>, store demo_frozen)"
    by simp
  from va 1 2 vb 3 show ?thesis by blast
qed

text \<open>
  Claim C6. \<^verbatim>\<open>Contains(e)\<close> is true exactly when some element of the bucket is the
  reference \<open>e\<close> itself. The comparator plays no part: after inserting \<open>e\<close> into a new
  \<^verbatim>\<open>VectorRep\<close>, a different reference \<open>e'\<close> that the comparator deems equal to \<open>e\<close> is
  not contained.
\<close>
theorem Contains_is_pointer_identity:
  "(Contains e w \<longleftrightarrow> (\<exists>i<length (the_bucket w). the_bucket w ! i = e)) \<and>
   (Insert e (VectorRep_new cnt) = Inr w' \<longrightarrow> e' \<noteq> e \<longrightarrow> c e' e = 0 \<longrightarrow>
      Contains e w' \<and> \<not> Contains e' w')"
proof (intro conjI impI)
  show "Contains e w \<longleftrightarrow> (\<exists>i<length (the_bucket w). the_bucket w ! i = e)"
    by (simp add: Contains_def in_set_conv_nth)
next
  assume i: "Insert e (VectorRep_new cnt) = Inr w'" and ne: "e' \<noteq> e"
  from i have "the_bucket w' = [e]"
    by (auto simp: Insert_def Contains_def VectorRep_new_eq split: if_splits)
  with ne show "Contains e w'" and "\<not> Contains e' w'" by (simp_all add: Contains_def)
qed

theorem Contains_is_pointer_identity_witness:
  "Insert 23 (VectorRep_new 0) =
     Inr \<lparr>mem = (\<lambda>a. [])(0 := [23::nat]), storage = (\<lambda>a. False)(0 := True), brk = 1,
          vrep = \<lparr>v_bucket = 0, v_immutable = False, v_sorted = False\<rparr>\<rparr> \<and>
   (63::nat) \<noteq> 23 \<and> demo_compare 63 23 = 0 \<and>
   Contains 23 \<lparr>mem = (\<lambda>a. [])(0 := [23::nat]), storage = (\<lambda>a. False)(0 := True), brk = 1,
          vrep = \<lparr>v_bucket = 0, v_immutable = False, v_sorted = False\<rparr>\<rparr> \<and>
   \<not> Contains 63 \<lparr>mem = (\<lambda>a. [])(0 := [23::nat]), storage = (\<lambda>a. False)(0 := True), brk = 1,
          vrep = \<lparr>v_bucket = 0, v_immutable = False, v_sorted = False\<rparr>\<rparr>"
proof -
  have i: "Insert 23 (VectorRep_new 0) =
     Inr \<lparr>mem = (\<lambda>a. [])(0 := [23::nat]), storage = (\<lambda>a. False)(0 := True), brk = 1,
          vrep = \<lparr>v_bucket = 0, v_immutable = False, v_sorted = False\<rparr>\<rparr>"
    by (simp add: Insert_def Contains_def VectorRep_new_eq)
  have d: "demo_compare 63 23 = 0" by (simp add: demo_compare_def)
  from Contains_is_pointer_identity [of 23 _ 0 _ 63 demo_compare] i d show ?thesis by simp
qed

text \<open>
  Claim C7. For every iterator of a configuration reached from a new \<^verbatim>\<open>VectorRep\<close>,
  \<^verbatim>\<open>SeekToFirst\<close> and \<^verbatim>\<open>SeekToLast\<close> succeed. Over an empty bucket both leave the cursor at
  \<^verbatim>\<open>end()\<close> and \<^verbatim>\<open>Valid\<close> is false; over a bucket with entries the cursor is at the first and
  at the last position, \<^verbatim>\<open>Valid\<close> is true and \<^verbatim>\<open>key\<close> returns the first and the last entry.
\<close>

theorem SeekToFirst_SeekToLast_validity:
  assumes swo: "strict_weak_order (Compare c)"
    and r: "run c calls (initial cnt) = Inr cf" and n: "n < length (iters cf)"
  shows "\<exists>it1 it2 w' xs.
           SeekToFirst c (iters cf ! n) (store cf) = Inr (it1, w') \<and>
           SeekToLast c (iters cf ! n) (store cf) = Inr (it2, w') \<and>
           bucket_of it1 w' = xs \<and> bucket_of it2 w' = xs \<and>
           mset xs = mset (bucket_of (iters cf ! n) (store cf)) \<and>
           (if bucket_of (iters cf ! n) (store cf) = []
            then i_cit it1 = Some (length xs) \<and> i_cit it2 = Some (length xs) \<and>
                 Valid c it1 w' = Inr (False, it1, w') \<and>
                 Valid c it2 w' = Inr (False, it2, w')
            else i_cit it1 = Some 0 \<and> i_cit it2 = Some (length xs - 1) \<and>
                 Valid c it1 w' = Inr (True, it1, w') \<and>
                 Valid c it2 w' = Inr (True, it2, w') \<and>
                 key c it1 w' = Inr (xs ! 0, it1, w') \<and>
                 key c it2 w' = Inr (xs ! (length xs - 1), it2, w'))"
proof -
  let ?it = "iters cf ! n" and ?w = "store cf"
  from reachable_DoSort [OF swo r n] obtain it0 w0
    where d: "DoSort c ?it ?w = Inr (it0, w0)"
      and s: "i_sorted it0" and v: "i_vrep it0 = nullptr \<or> v_sorted (vrep w0)"
      and m: "mset (bucket_of it0 w0) = mset (bucket_of ?it ?w)" by blast
  define xs where "xs = bucket_of it0 w0"
  define it1 where "it1 = it0\<lparr>i_cit := Some 0\<rparr>"
  define it2 where "it2 = it0\<lparr>i_cit := Some (length xs - 1)\<rparr>"
  have e: "xs = [] \<longleftrightarrow> bucket_of ?it ?w = []"
    using m unfolding xs_def by (metis mset_zero_iff)
  have 1: "SeekToFirst c ?it ?w = Inr (it1, w0)" by (simp add: SeekToFirst_def d it1_def)
  have 2: "SeekToLast c ?it ?w = Inr (it2, w0)"
    by (simp add: SeekToLast_def d it2_def xs_def Let_def)
  have p1: "i_sorted it1" "i_vrep it1 = nullptr \<or> v_sorted (vrep w0)" "bucket_of it1 w0 = xs"
    "i_cit it1 = Some 0"
    using s v by (simp_all add: it1_def xs_def)
  have p2: "i_sorted it2" "i_vrep it2 = nullptr \<or> v_sorted (vrep w0)" "bucket_of it2 w0 = xs"
    "i_cit it2 = Some (length xs - 1)"
    using s v by (simp_all add: it2_def xs_def)
  have v1: "Valid c it1 w0 = Inr (xs \<noteq> [], it1, w0)"
    using Valid_sorted [OF p1(1,2), of c] p1(3,4) by (auto simp: at_end_Some)
  have v2: "Valid c it2 w0 = Inr (xs \<noteq> [], it2, w0)"
    using Valid_sorted [OF p2(1,2), of c] p2(3,4) by (cases xs) (auto simp: at_end_Some)
  have k1: "key c it1 w0 = Inr (xs ! 0, it1, w0)" if "xs \<noteq> []"
    using key_sorted [OF p1(1,2) p1(4), of c] p1(3) that by simp
  have k2: "key c it2 w0 = Inr (xs ! (length xs - 1), it2, w0)" if "xs \<noteq> []"
    using key_sorted [OF p2(1,2) p2(4), of c] p2(3) that by simp
  show ?thesis
  proof (cases "bucket_of ?it ?w = []")
    case True
    with e have "xs = []" by simp
    with 1 2 p1 p2 v1 v2 m True show ?thesis by (auto simp: xs_def)
  next
    case False
    with e have "xs \<noteq> []" by simp
    with 1 2 p1 p2 v1 v2 k1 k2 m False show ?thesis by (auto simp: xs_def)
  qed
qed

theorem SeekToFirst_SeekToLast_validity_witness:
  "strict_weak_order (Compare demo_compare) \<and>
   run demo_compare [MarkReadOnly_call, GetIterator_call] (initial 0) = Inr demo_empty \<and>
   0 < length (iters demo_empty) \<and>
   bucket_of (iters demo_empty ! 0) (store demo_empty) = [] \<and>
   (\<exists>it1 it2 w'.
      SeekToFirst demo_compare (iters demo_empty ! 0) (store demo_empty) = Inr (it1, w') \<and>
      SeekToLast demo_compare (iters demo_empty ! 0) (store demo_empty) = Inr (it2, w') \<and>
      Valid demo_compare it1 w' = Inr (False, it1, w') \<and>
      Valid demo_compare it2 w' = Inr (False, it2, w')) \<and>
   run demo_compare demo_calls (initial 0) = Inr demo_frozen \<and>
   0 < length (iters demo_frozen) \<and>
   bucket_of (iters demo_frozen ! 0) (store demo_frozen) = [41, 52, 23, 34, 15] \<and>
   (\<exists>it1 it2 w' xs.
      SeekToFirst demo_compare (iters demo_frozen ! 0) (store demo_frozen) = Inr (it1, w') \<and>
      SeekToLast demo_compare (iters demo_frozen ! 0) (store demo_frozen) = Inr (it2, w') \<and>
      bucket_of it1 w' = xs \<and> i_cit it1 = Some 0 \<and> i_cit it2 = Some (length xs - 1) \<and>
      Valid demo_compare it1 w' = Inr (True, it1, w') \<and>
      Valid demo_compare it2 w' = Inr (True, it2, w'))"
proof -
  have e: "0 < length (iters demo_empty)" "bucket_of (iters demo_empty ! 0) (store demo_empty) = []"
    by (simp_all add: demo_empty_def demo_world_def)
  have f: "0 < length (iters demo_frozen)"
    "bucket_of (iters demo_frozen ! 0) (store demo_frozen) = [41, 52, 23, 34, 15]"
    by (simp_all add: demo_frozen_def demo_world_def)
  from SeekToFirst_SeekToLast_validity [OF swo_demo run_demo_empty e(1)] e(2)
  have 1: "\<exists>it1 it2 w'.
      SeekToFirst demo_compare (iters demo_empty ! 0) (store demo_empty) = Inr (it1, w') \<and>
      SeekToLast demo_compare (iters demo_empty ! 0) (store demo_empty) = Inr (it2, w') \<and>
      Valid demo_compare it1 w' = Inr (False, it1, w') \<and>
      Valid demo_compare it2 w' = Inr (False, it2, w')"
    by (simp only: simp_thms if_True) blast
  from SeekToFirst_SeekToLast_validity [OF swo_demo run_demo f(1)] f(2)
  have 2: "\<exists>it1 it2 w' xs.
      SeekToFirst demo_compare (iters demo_frozen ! 0) (store demo_frozen) = Inr (it1, w') \<and>
      SeekToLast demo_compare (iters demo_frozen ! 0) (store demo_frozen) = Inr (it2, w') \<and>
      bucket_of it1 w' = xs \<and> i_cit it1 = Some 0 \<and> i_cit it2 = Some (length xs - 1) \<and>
      Valid demo_compare it1 w' = Inr (True, it1, w') \<and>
      Valid demo_compare it2 w' = Inr (True, it2, w')"
    by (simp only: list.distinct simp_thms if_False) blast
  from swo_demo run_demo_empty e 1 run_demo f 2 show ?thesis by blast
qed

text \<open>
  Claim C8. \<^verbatim>\<open>MarkReadOnly\<close> twice is \<^verbatim>\<open>MarkReadOnly\<close> once; after it \<^verbatim>\<open>immutable_\<close> is true;
  and no run of calls, from any configuration, resets a true \<^verbatim>\<open>immutable_\<close>.
\<close>

theorem MarkReadOnly_idempotent:
  "MarkReadOnly (MarkReadOnly w) = MarkReadOnly w \<and>
   v_immutable (vrep (MarkReadOnly w)) \<and>
   (v_immutable (vrep (store cf)) \<longrightarrow> run c calls cf = Inr cf' \<longrightarrow>
      v_immutable (vrep (store cf')))"
proof (intro conjI impI)
  show "MarkReadOnly (MarkReadOnly w) = MarkReadOnly w" by (simp add: MarkReadOnly_def)
  show "v_immutable (vrep (MarkReadOnly w))" by (simp add: MarkReadOnly_def)
next
  assume "v_immutable (vrep (store cf))" and "run c calls cf = Inr cf'"
  with run_frame [of c calls cf cf'] show "v_immutable (vrep (store cf'))" by blast
qed

theorem MarkReadOnly_idempotent_witness:
  "v_immutable (vrep (store demo_frozen)) \<and>
   run demo_compare [Next_call 0, GetIterator_call] demo_frozen =
     Inr (demo_frozen\<lparr>iters :=
       [\<lparr>i_vrep = this_vrep, i_bucket = 0, i_cit = Some 1, i_sorted = True\<rparr>,
        \<lparr>i_vrep = this_vrep, i_bucket = 0, i_cit = None, i_sorted = False\<rparr>,
        \<lparr>i_vrep = this_vrep, i_bucket = 0, i_cit = None, i_sorted = False\<rparr>]\<rparr>) \<and>
   v_immutable (vrep (store (demo_frozen\<lparr>iters :=
       [\<lparr>i_vrep = this_vrep, i_bucket = 0, i_cit = Some 1, i_sorted = True\<rparr>,
        \<lparr>i_vrep = this_vrep, i_bucket = 0, i_cit = None, i_sorted = False\<rparr>,
        \<lparr>i_vrep = this_vrep, i_bucket = 0, i_cit = None, i_sorted = False\<rparr>]\<rparr>))) \<and>
   MarkReadOnly (MarkReadOnly (store demo_mutable)) = MarkReadOnly (store demo_mutable)"
proof -
  have i: "v_immutable (vrep (store demo_frozen))" by (simp add: demo_frozen_def demo_world_def)
  have r: "run demo_compare [Next_call 0, GetIterator_call] demo_frozen =
     Inr (demo_frozen\<lparr>iters :=
       [\<lparr>i_vrep = this_vrep, i_bucket = 0, i_cit = Some 1, i_sorted = True\<rparr>,
        \<lparr>i_vrep = this_vrep, i_bucket = 0, i_cit = None, i_sorted = False\<rparr>,
        \<lparr>i_vrep = this_vrep, i_bucket = 0, i_cit = None, i_sorted = False\<rparr>]\<rparr>)"
    by (simp add: demo_frozen_def demo_eval)
  note t = MarkReadOnly_idempotent [of "store demo_mutable" demo_frozen demo_compare
      "[Next_call 0, GetIterator_call]"]
  from t i r show ?thesis by blast
qed

text \<open>
  Claim C9. While the bucket holds no more than \<^verbatim>\<open>max_size()\<close> entries,
  \<^verbatim>\<open>ApproximateMemoryUsage\<close> is the fixed overhead (the sizes of the shared pointer and of the
  vector object) plus the number of entries times the size of a pointer, without wrap-around.
  It grows by one pointer size per entry over any sequence of \<^verbatim>\<open>Insert\<close> calls, and does not
  decrease over any run of calls, since no call removes an entry.
\<close>

theorem ApproximateMemoryUsage_grows:
  "(length (the_bucket w) \<le> vector_max_size \<longrightarrow>
      ApproximateMemoryUsage w =
        sizeof_shared_ptr + sizeof_Bucket + length (the_bucket w) * sizeof_value_type) \<and>
   (Insert_all ks w = Inr w' \<longrightarrow> length (the_bucket w') \<le> vector_max_size \<longrightarrow>
      ApproximateMemoryUsage w \<le> ApproximateMemoryUsage w' \<and>
      ApproximateMemoryUsage w' = ApproximateMemoryUsage w + length ks * sizeof_value_type) \<and>
   (run c calls cf = Inr cf' \<longrightarrow> length (the_bucket (store cf')) \<le> vector_max_size \<longrightarrow>
      ApproximateMemoryUsage (store cf) \<le> ApproximateMemoryUsage (store cf'))"
proof (intro conjI impI)
  assume "length (the_bucket w) \<le> vector_max_size"
  then show "ApproximateMemoryUsage w =
      sizeof_shared_ptr + sizeof_Bucket + length (the_bucket w) * sizeof_value_type"
    by (rule ApproximateMemoryUsage_exact)
next
  assume i: "Insert_all ks w = Inr w'" and b: "length (the_bucket w') \<le> vector_max_size"
  from i have l: "length (the_bucket w') = length (the_bucket w) + length ks"
    by (simp add: Insert_all_result)
  with b have b0: "length (the_bucket w) \<le> vector_max_size" by simp
  show "ApproximateMemoryUsage w' = ApproximateMemoryUsage w + length ks * sizeof_value_type"
    by (simp add: ApproximateMemoryUsage_exact [OF b] ApproximateMemoryUsage_exact [OF b0] l
        add_mult_distrib)
  then show "ApproximateMemoryUsage w \<le> ApproximateMemoryUsage w'" by simp
next
  assume r: "run c calls cf = Inr cf'" and b: "length (the_bucket (store cf')) \<le> vector_max_size"
  from run_frame [OF r] have l: "length (the_bucket (store cf)) \<le> length (the_bucket (store cf'))"
    by blast
  with b have b0: "length (the_bucket (store cf)) \<le> vector_max_size" by simp
  from l show "ApproximateMemoryUsage (store cf) \<le> ApproximateMemoryUsage (store cf')"
    by (simp add: ApproximateMemoryUsage_exact [OF b] ApproximateMemoryUsage_exact [OF b0])
qed

theorem ApproximateMemoryUsage_grows_witness:
  "length (the_bucket (store demo_mutable)) \<le> vector_max_size \<and>
   ApproximateMemoryUsage (store demo_mutable) = 56 \<and>
   Insert_all [34, 41] (store demo_mutable) = Inr (demo_world [15, 23, 34, 41] False False) \<and>
   length (the_bucket (demo_world [15, 23, 34, 41] False False)) \<le> vector_max_size \<and>
   ApproximateMemoryUsage (store demo_mutable)
     \<le> ApproximateMemoryUsage (demo_world [15, 23, 34, 41] False False) \<and>
   ApproximateMemoryUsage (demo_world [15, 23, 34, 41] False False) = 72 \<and>
   run demo_compare [Insert_call 34, GetIterator_call, Valid_call 0] demo_mutable =
     Inr \<lparr>store = \<lparr>mem = (\<lambda>a. [])(0 := [15, 23, 34], 1 := [23, 34, 15]),
                                 storage = (\<lambda>a. False)(0 := True, 1 := True), brk = 2,
                   vrep = \<lparr>v_bucket = 0, v_immutable = False, v_sorted = False\<rparr>\<rparr>,
          iters = [\<lparr>i_vrep = nullptr, i_bucket = 1, i_cit = Some 0, i_sorted = True\<rparr>]\<rparr> \<and>
   ApproximateMemoryUsage (store demo_mutable)
     \<le> ApproximateMemoryUsage
         \<lparr>mem = (\<lambda>a. [])(0 := [15, 23, 34 :: nat], 1 := [23, 34, 15]),
                 storage = (\<lambda>a. False)(0 := True, 1 := True), brk = 2,
          vrep = \<lparr>v_bucket = 0, v_immutable = False, v_sorted = False\<rparr>\<rparr>"
proof -
  let ?cf = "\<lparr>store = \<lparr>mem = (\<lambda>a. [])(0 := [15, 23, 34 :: nat], 1 := [23, 34, 15]),
                                     storage = (\<lambda>a. False)(0 := True, 1 := True), brk = 2,
                   vrep = \<lparr>v_bucket = 0, v_immutable = False, v_sorted = False\<rparr>\<rparr>,
          iters = [\<lparr>i_vrep = nullptr, i_bucket = 1, i_cit = Some 0, i_sorted = True\<rparr>]\<rparr>"
  have b: "length (the_bucket (store demo_mutable)) \<le> vector_max_size"
    "length (the_bucket (demo_world [15, 23, 34, 41] False False)) \<le> vector_max_size"
    "length (the_bucket (store ?cf)) \<le> vector_max_size"
    by (simp_all add: demo_mutable_def demo_world_def vector_max_size_def)
  have i: "Insert_all [34, 41] (store demo_mutable) = Inr (demo_world [15, 23, 34, 41] False False)"
    by (simp add: demo_mutable_def demo_eval fun_eq_iff)
  have r: "run demo_compare [Insert_call 34, GetIterator_call, Valid_call 0] demo_mutable = Inr ?cf"
    by (simp add: demo_mutable_def demo_eval fun_eq_iff)
  note t = ApproximateMemoryUsage_grows [of "store demo_mutable" "[34, 41]"
      "demo_world [15, 23, 34, 41] False False" demo_compare
      "[Insert_call 34, GetIterator_call, Valid_call 0]" demo_mutable ?cf]
  from t b(1) have "ApproximateMemoryUsage (store demo_mutable) =
      sizeof_shared_ptr + sizeof_Bucket +
      length (the_bucket (store demo_mutable)) * sizeof_value_type" by blast
  then have 1: "ApproximateMemoryUsage (store demo_mutable) = 56"
    by (simp add: demo_mutable_def demo_world_def sizeof_shared_ptr_def sizeof_Bucket_def
        sizeof_value_type_def)
  from t i b(2) have 2: "ApproximateMemoryUsage (store demo_mutable)
     \<le> ApproximateMemoryUsage (demo_world [15, 23, 34, 41] False False)"
    and 3: "ApproximateMemoryUsage (demo_world [15, 23, 34, 41] False False) =
      ApproximateMemoryUsage (store demo_mutable) + length [34, 41 :: nat] * sizeof_value_type"
    by blast+
  from 3 1 have 4: "ApproximateMemoryUsage (demo_world [15, 23, 34, 41] False False) = 72"
    by (simp add: sizeof_value_type_def)
  from t r b(3) have 5: "ApproximateMemoryUsage (store demo_mutable)
     \<le> ApproximateMemoryUsage (store ?cf)" by blast
  from 5 have 6: "ApproximateMemoryUsage (store demo_mutable)
     \<le> ApproximateMemoryUsage
         \<lparr>mem = (\<lambda>a. [])(0 := [15, 23, 34 :: nat], 1 := [23, 34, 15]),
                 storage = (\<lambda>a. False)(0 := True, 1 := True), brk = 2,
          vrep = \<lparr>v_bucket = 0, v_immutable = False, v_sorted = False\<rparr>\<rparr>" by simp
  from b(1,2) 1 i 2 4 r 6 show ?thesis by blast
qed



end
